theory Spec2Isabelle
  imports Main "HOL-Library.Sublist"
begin

section \<open>Process environment\<close>

text \<open>
  \<^verbatim>\<open>process.env\<close> after \<^verbatim>\<open>dotenv.config()\<close>: each variable the server reads is a string
  or \<^verbatim>\<open>undefined\<close> (\<open>None\<close>).
\<close>

record env =
  NODE_ENV :: "string option"
  FRONTEND_URL :: "string option"
  PORT :: "string option"
  MONGODB_URI :: "string option"

text \<open>
  JavaScript truthiness of a value that is a string or \<^verbatim>\<open>undefined\<close>: \<^verbatim>\<open>undefined\<close> and the
  empty string are falsy, every other string is truthy. This is what \<^verbatim>\<open>!origin\<close>,
  \<^verbatim>\<open>.filter(Boolean)\<close> and \<^verbatim>\<open>a || b\<close> test.
\<close>

definition truthy :: "string option \<Rightarrow> bool" where
  "truthy v = (case v of None \<Rightarrow> False | Some s \<Rightarrow> s \<noteq> [])"

text \<open>\<^verbatim>\<open>a || d\<close> for a string-or-undefined \<open>a\<close> and a default \<open>d\<close>.\<close>

definition or_default :: "string option \<Rightarrow> string \<Rightarrow> string" where
  "or_default v d = (case v of None \<Rightarrow> d | Some s \<Rightarrow> if s = [] then d else s)"

section \<open>CORS configuration (\<^verbatim>\<open>corsOptions\<close>)\<close>

text \<open>\<^verbatim>\<open>new Error(msg)\<close>, as handed to a callback or to \<^verbatim>\<open>next\<close>.\<close>

datatype error = Error string

text \<open>
  The list \<^verbatim>\<open>allowed\<close> built inside \<^verbatim>\<open>corsOptions.origin\<close>: the two development origins and
  \<^verbatim>\<open>process.env.FRONTEND_URL\<close>, with the falsy entries filtered out.
\<close>

definition allowed :: "env \<Rightarrow> string option list" where
  "allowed e =
     filter truthy [Some ''http://localhost:3000'', Some ''http://localhost:5173'', FRONTEND_URL e]"

text \<open>
  \<^verbatim>\<open>corsOptions.origin(origin, callback)\<close>. The result is the pair of arguments the callback
  receives: \<open>Inr True\<close> for \<^verbatim>\<open>callback(null, true)\<close>, \<open>Inl err\<close> for \<^verbatim>\<open>callback(err)\<close>.
  \<open>origin\<close> is the value of the request's \<^verbatim>\<open>Origin\<close> header (\<open>None\<close> when the header
  is absent).
\<close>

definition corsOptions_origin :: "env \<Rightarrow> string option \<Rightarrow> error + bool" where
  "corsOptions_origin e origin =
     (if \<not> truthy origin then Inr True
      else if origin \<in> set (allowed e) \<or> NODE_ENV e \<noteq> Some ''production'' then Inr True
      else Inl (Error ''Not allowed by CORS''))"

definition corsOptions_credentials :: bool where
  "corsOptions_credentials = True"

definition corsOptions_optionsSuccessStatus :: nat where
  "corsOptions_optionsSuccessStatus = 200"

text \<open>
  What \<^verbatim>\<open>cors(corsOptions)\<close> does with the callback's answer: an error goes to \<^verbatim>\<open>next(err)\<close>;
  a truthy answer reflects the request origin and, because \<^verbatim>\<open>credentials\<close> is a field of
  the options, announces credentialed exchange according to it; a falsy answer adds no
  header.
\<close>

record cors_decision =
  allow :: bool
  allow_origin :: "string option"
  allow_credentials :: bool

definition cors :: "env \<Rightarrow> string option \<Rightarrow> error + cors_decision" where
  "cors e origin =
     (case corsOptions_origin e origin of
        Inl err \<Rightarrow> Inl err
      | Inr ok \<Rightarrow>
          if ok then Inr \<lparr>allow = True, allow_origin = origin,
                         allow_credentials = corsOptions_credentials\<rparr>
          else Inr \<lparr>allow = False, allow_origin = None, allow_credentials = False\<rparr>)"

text \<open>
  The allow-list in the words of the specification: the two development origins, and
  \<^verbatim>\<open>FRONTEND_URL\<close> when it is set.
\<close>

definition spec_allow_list :: "env \<Rightarrow> string set" where
  "spec_allow_list e =
     {''http://localhost:3000'', ''http://localhost:5173''} \<union>
     (case FRONTEND_URL e of None \<Rightarrow> {} | Some u \<Rightarrow> {u})"

definition production_env :: env where
  "production_env = \<lparr>NODE_ENV = Some ''production'', FRONTEND_URL = None, PORT = None,
     MONGODB_URI = None\<rparr>"

section \<open>Requests and responses\<close>

text \<open>
  The fields of an Express request that the server reads: the method, \<^verbatim>\<open>req.path\<close> (the
  pathname, which the layers are matched against), \<^verbatim>\<open>req.originalUrl\<close>, the \<^verbatim>\<open>Origin\<close>
  header and \<^verbatim>\<open>req.ip\<close> (the key of the rate limiters).
\<close>

record request =
  "method" :: string
  path :: string
  originalUrl :: string
  origin :: "string option"
  ip :: string

text \<open>
  JSON values of the bodies written with \<^verbatim>\<open>res.json\<close>. \<open>JIsoDate t\<close> stands for the string
  \<^verbatim>\<open>new Date(t).toISOString()\<close>, \<open>t\<close> being the clock in milliseconds.
\<close>

datatype jval = JBool bool | JString string | JIsoDate nat

datatype body = Json "(string \<times> jval) list" | Text string | Empty

record response =
  status :: nat
  body :: body

section \<open>Route matching\<close>

text \<open>
  Express matches paths without regard to case (\<^verbatim>\<open>case sensitive routing\<close> is off) and
  ignores one trailing slash (\<^verbatim>\<open>strict routing\<close> is off).
\<close>

definition to_lower :: "char \<Rightarrow> char" where
  "to_lower c =
     (case map_of (zip ''ABCDEFGHIJKLMNOPQRSTUVWXYZ'' ''abcdefghijklmnopqrstuvwxyz'') c of
        None \<Rightarrow> c
      | Some d \<Rightarrow> d)"

definition strip_slash :: "string \<Rightarrow> string" where
  "strip_slash p = (if p \<noteq> [] \<and> last p = CHR ''/'' then butlast p else p)"

text \<open>
  \<^verbatim>\<open>app.use(mount, fn)\<close>: the layer runs when the path starts with the mount path and the
  mount path ends there or at a \<^verbatim>\<open>/\<close>. \<^verbatim>\<open>app.use(fn)\<close> is \<^verbatim>\<open>app.use('/', fn)\<close>, which
  Express matches against every path without looking at it.
\<close>

definition use_matches :: "string \<Rightarrow> string \<Rightarrow> bool" where
  "use_matches mount p =
     (if mount = ''/'' then True
      else
        let m = map to_lower (strip_slash mount); q = map to_lower p
        in take (length m) q = m \<and>
           (case drop (length m) q of [] \<Rightarrow> True | c # _ \<Rightarrow> c = CHR ''/''))"

text \<open>\<^verbatim>\<open>app.get(route, fn)\<close>: the whole path is the route, up to one trailing slash.\<close>

definition route_matches :: "string \<Rightarrow> string \<Rightarrow> bool" where
  "route_matches route p =
     (let r = map to_lower (strip_slash route); q = map to_lower p
      in q = r \<or> q = r @ ''/'')"

datatype mount = Use string | Get string

fun layer_matches :: "mount \<Rightarrow> request \<Rightarrow> bool" where
  "layer_matches (Use m) req = use_matches m (path req)"
| "layer_matches (Get r) req =
     ((method req = ''GET'' \<or> method req = ''HEAD'') \<and> route_matches r (path req))"

section \<open>Rate limiters\<close>

text \<open>
  The options the server passes to \<^verbatim>\<open>rateLimit\<close>. An option that a call leaves out is
  \<open>None\<close> for the header switches and \<open>False\<close> for \<^verbatim>\<open>skipSuccessfulRequests\<close>. Responses
  are modelled without their headers, so the header switches have no effect here.
\<close>

record limiter_options =
  windowMs :: nat
  max' :: nat
  message :: string
  standardHeaders :: "bool option"
  legacyHeaders :: "bool option"
  skipSuccessfulRequests :: bool

definition limiter :: limiter_options where
  "limiter = \<lparr>windowMs = 15 * 60 * 1000, max' = 100,
     message = ''Too many requests from this IP, please try again later.'',
     standardHeaders = Some True, legacyHeaders = Some False,
     skipSuccessfulRequests = False\<rparr>"

definition authLimiter :: limiter_options where
  "authLimiter = \<lparr>windowMs = 15 * 60 * 1000, max' = 5,
     message = ''Too many login attempts, please try again later.'',
     standardHeaders = None, legacyHeaders = None,
     skipSuccessfulRequests = True\<rparr>"

text \<open>
  Modelled from the spec: the middleware that \<^verbatim>\<open>rateLimit(options)\<close> returns and its store
  of counters are not under src/. Each client key has a window with a start and a
  count, created at the key's first request and reset once the window's duration has
  elapsed since its start.
\<close>

record window =
  start :: nat
  count :: nat

type_synonym store = "string \<rightharpoonup> window"

text \<open>
  Modelled from the spec: the window a request arriving now finds for its key. A key
  without a window gets a new one that starts now with count 0, and so does a key whose
  window has expired.
\<close>

definition current_window :: "limiter_options \<Rightarrow> nat \<Rightarrow> store \<Rightarrow> string \<Rightarrow> window" where
  "current_window opts now st k =
     (case st k of
        None \<Rightarrow> \<lparr>start = now, count = 0\<rparr>
      | Some w \<Rightarrow> if start w + windowMs opts \<le> now then \<lparr>start = now, count = 0\<rparr> else w)"

text \<open>
  Modelled from the spec: the count of the key's window goes up by one; the result is the
  store and the new count.
\<close>

definition increment :: "limiter_options \<Rightarrow> nat \<Rightarrow> string \<Rightarrow> store \<Rightarrow> store \<times> nat" where
  "increment opts now k st =
     (let w = current_window opts now st k
      in (st(k \<mapsto> w\<lparr>count := count w + 1\<rparr>), count w + 1))"

text \<open>Modelled from the spec: an increment is taken back.\<close>

definition decrement :: "limiter_options \<Rightarrow> nat \<Rightarrow> string \<Rightarrow> store \<Rightarrow> store" where
  "decrement opts now k st =
     (let w = current_window opts now st k
      in st(k \<mapsto> w\<lparr>count := count w - 1\<rparr>))"

text \<open>
  Modelled from the spec: on each request the limiter resolves the client key, looks up or
  creates its window, increments the count and, if the count exceeds the maximum, rejects
  with status 429 carrying the configured message (\<open>Some\<close> of the rejection); otherwise
  the request proceeds (\<open>None\<close>).
\<close>

definition rateLimit :: "limiter_options \<Rightarrow> nat \<Rightarrow> string \<Rightarrow> store \<Rightarrow> store \<times> response option" where
  "rateLimit opts now k st =
     (let (st', hits) = increment opts now k st
      in if max' opts < hits then (st', Some \<lparr>status = 429, body = Text (message opts)\<rparr>)
         else (st', None))"

text \<open>
  Modelled from the spec: the attempts that count for a limiter that exempts successes
  are the failed, non-2xx ones; a response is successful when its status is 2xx.
\<close>

definition successful :: "response \<Rightarrow> bool" where
  "successful r = (200 \<le> status r \<and> status r < 300)"

text \<open>
  Modelled from the spec: a limiter that exempts successes decides on the response path.
  A successful response does not count against the limit, so the increment made when the
  request arrived is taken back.
\<close>

definition on_finish :: "limiter_options \<Rightarrow> nat \<Rightarrow> string \<Rightarrow> response \<Rightarrow> store \<Rightarrow> store" where
  "on_finish opts now k r st =
     (if skipSuccessfulRequests opts \<and> successful r then decrement opts now k st else st)"

text \<open>The server creates two limiters, each with a store of its own.\<close>

datatype limiter_id = General | Auth

record stores =
  general :: store
  auth :: store

fun options_of :: "limiter_id \<Rightarrow> limiter_options" where
  "options_of General = limiter"
| "options_of Auth = authLimiter"

fun store_of :: "limiter_id \<Rightarrow> stores \<Rightarrow> store" where
  "store_of General st = general st"
| "store_of Auth st = auth st"

fun put_store :: "limiter_id \<Rightarrow> store \<Rightarrow> stores \<Rightarrow> stores" where
  "put_store General s st = st\<lparr>general := s\<rparr>"
| "put_store Auth s st = st\<lparr>auth := s\<rparr>"

section \<open>The middleware chain\<close>

text \<open>
  The middleware and handlers registered on \<^verbatim>\<open>app\<close>. The stack of layers is in the order
  of the \<^verbatim>\<open>app.use\<close> and \<^verbatim>\<open>app.get\<close> calls of \<^verbatim>\<open>server.js\<close>, section by section of that
  file.
\<close>

datatype middleware =
    Helmet
  | RateLimit limiter_id
  | Morgan
  | Cors
  | JsonParser
  | UrlencodedParser
  | Static string
  | RootRoute
  | Router string
  | HealthRoute
  | ErrorHandler
  | NotFound

type_synonym layer = "mount \<times> middleware"

definition security_middleware :: "layer list" where
  "security_middleware =
    [(Use ''/'', Helmet),
     (Use ''/api/'', RateLimit General),
     (Use ''/api/auth/login'', RateLimit Auth),
     (Use ''/api/auth/register'', RateLimit Auth)]"

definition logging :: "layer list" where
  "logging = [(Use ''/'', Morgan)]"

definition cors_configuration :: "layer list" where
  "cors_configuration = [(Use ''/'', Cors)]"

definition body_parsers :: "layer list" where
  "body_parsers = [(Use ''/'', JsonParser), (Use ''/'', UrlencodedParser)]"

definition static_file_serving :: "layer list" where
  "static_file_serving =
    [(Use ''/api/uploads'', Static ''uploads''),
     (Use ''/api/uploads/leaves'', Static ''uploads/leaves'')]"

definition root_route :: "layer list" where
  "root_route = [(Get ''/'', RootRoute)]"

definition api_routes :: "layer list" where
  "api_routes =
    [(Use ''/api/auth'', Router ''./routes/auth''),
     (Use ''/api/attendance'', Router ''./routes/attendance''),
     (Use ''/api/dashboard'', Router ''./routes/dashboard''),
     (Use ''/api/badges'', Router ''./routes/badges''),
     (Use ''/api/profile'', Router ''./routes/profile''),
     (Use ''/api/leaves'', Router ''./routes/leaves''),
     (Use ''/api/leave-types'', Router ''./routes/leaveTypes''),
     (Use ''/api/notifications'', Router ''./routes/notifications''),
     (Use ''/api/leave-analytics'', Router ''./routes/leaveAnalytics''),
     (Get ''/api/health'', HealthRoute)]"

definition not_found_handler :: "layer list" where
  "not_found_handler = [(Use ''/'', ErrorHandler), (Use ''/'', NotFound)]"

definition app :: "layer list" where
  "app = security_middleware @ logging @ cors_configuration @ body_parsers @
     static_file_serving @ root_route @ api_routes @ not_found_handler"

text \<open>What a middleware does with a request: call \<^verbatim>\<open>next()\<close>, answer, or fail.\<close>

datatype handler_result = Next | Respond response | Throw error

text \<open>
  The modules the server requires and whose code is elsewhere, as parameters: the body
  parsers (an error for a body they refuse), the static file server (a file, or
  \<^verbatim>\<open>next()\<close>), the routers of \<^verbatim>\<open>./routes\<close> and the error handler of
  \<^verbatim>\<open>./middleware/errorHandler\<close>.
\<close>

record collaborators =
  json_parser :: "request \<Rightarrow> error option"
  urlencoded_parser :: "request \<Rightarrow> error option"
  static :: "string \<Rightarrow> request \<Rightarrow> response option"
  router :: "string \<Rightarrow> request \<Rightarrow> handler_result"
  errorHandler :: "error \<Rightarrow> request \<Rightarrow> response"

definition root_body :: "nat \<Rightarrow> (string \<times> jval) list" where
  "root_body now =
    [(''success'', JBool True),
     (''message'', JString (''Backend Running Successfully '' @
        [CHR 0xF0, CHR 0x9F, CHR 0x9A, CHR 0x80])),
     (''timestamp'', JIsoDate now)]"

definition health_body :: "env \<Rightarrow> nat \<Rightarrow> (string \<times> jval) list" where
  "health_body e now =
    [(''status'', JString ''OK''),
     (''message'', JString ''Server is running''),
     (''timestamp'', JIsoDate now),
     (''environment'', JString (or_default (NODE_ENV e) ''development''))]"

definition not_found_body :: "request \<Rightarrow> (string \<times> jval) list" where
  "not_found_body req =
    [(''success'', JBool False),
     (''error'', JString ''Route not found''),
     (''path'', JString (originalUrl req))]"

text \<open>
  One middleware on one request. \<^verbatim>\<open>helmet\<close> sets response headers and \<^verbatim>\<open>morgan\<close> writes
  the access log (in the \<^verbatim>\<open>dev\<close> format when \<^verbatim>\<open>NODE_ENV\<close> is \<^verbatim>\<open>development\<close>, else in the
  \<^verbatim>\<open>combined\<close> format); both then call \<^verbatim>\<open>next()\<close>. \<^verbatim>\<open>cors\<close> answers a preflight (\<^verbatim>\<open>OPTIONS\<close>) request of an
  allowed origin itself, with \<^verbatim>\<open>optionsSuccessStatus\<close> and no body. \<^verbatim>\<open>res.json\<close> without
  \<^verbatim>\<open>res.status\<close> answers with status 200.
\<close>

fun handle ::
  "env \<Rightarrow> collaborators \<Rightarrow> nat \<Rightarrow> request \<Rightarrow> error option \<Rightarrow> middleware \<Rightarrow> stores
    \<Rightarrow> handler_result \<times> stores" where
  "handle e c now req err Helmet st = (Next, st)"
| "handle e c now req err (RateLimit l) st =
     (case rateLimit (options_of l) now (ip req) (store_of l st) of
        (s, None) \<Rightarrow> (Next, put_store l s st)
      | (s, Some r) \<Rightarrow> (Respond r, put_store l s st))"
| "handle e c now req err Morgan st = (Next, st)"
| "handle e c now req err Cors st =
     (case cors e (origin req) of
        Inl x \<Rightarrow> (Throw x, st)
      | Inr d \<Rightarrow>
          if allow d \<and> method req = ''OPTIONS''
          then (Respond \<lparr>status = corsOptions_optionsSuccessStatus, body = Empty\<rparr>, st)
          else (Next, st))"
| "handle e c now req err JsonParser st =
     (case json_parser c req of None \<Rightarrow> (Next, st) | Some x \<Rightarrow> (Throw x, st))"
| "handle e c now req err UrlencodedParser st =
     (case urlencoded_parser c req of None \<Rightarrow> (Next, st) | Some x \<Rightarrow> (Throw x, st))"
| "handle e c now req err (Static root) st =
     (case static c root req of None \<Rightarrow> (Next, st) | Some r \<Rightarrow> (Respond r, st))"
| "handle e c now req err RootRoute st =
     (Respond \<lparr>status = 200, body = Json (root_body now)\<rparr>, st)"
| "handle e c now req err (Router name) st = (router c name req, st)"
| "handle e c now req err HealthRoute st =
     (Respond \<lparr>status = 200, body = Json (health_body e now)\<rparr>, st)"
| "handle e c now req err ErrorHandler st =
     (case err of None \<Rightarrow> (Next, st) | Some x \<Rightarrow> (Respond (errorHandler c x req), st))"
| "handle e c now req err NotFound st =
     (Respond \<lparr>status = 404, body = Json (not_found_body req)\<rparr>, st)"

text \<open>
  Express walks the stack in order. While no error is pending it runs the matching
  layers that are not error handlers; once a middleware has failed it skips to the next
  error handler (a function of four arguments, here only \<^verbatim>\<open>errorHandler\<close>).
  \<open>walk\<close> gives the list of the middleware that ran, the response (\<open>Inl\<close>) or, when no
  layer has answered, the error still pending (\<open>Inr\<close>), and the stores.
\<close>

definition handles_errors :: "middleware \<Rightarrow> bool" where
  "handles_errors mw = (mw = ErrorHandler)"

fun walk ::
  "env \<Rightarrow> collaborators \<Rightarrow> nat \<Rightarrow> request \<Rightarrow> layer list \<Rightarrow> error option \<Rightarrow> stores
    \<Rightarrow> middleware list \<times> (response + error option) \<times> stores" where
  "walk e c now req [] err st = ([], Inr err, st)"
| "walk e c now req ((m, mw) # ls) err st =
     (if layer_matches m req \<and> handles_errors mw = (err \<noteq> None) then
        (case handle e c now req err mw st of
           (Next, st') \<Rightarrow>
             (case walk e c now req ls None st' of (ms, out, st'') \<Rightarrow> (mw # ms, out, st''))
         | (Respond r, st') \<Rightarrow> ([mw], Inl r, st')
         | (Throw x, st') \<Rightarrow>
             (case walk e c now req ls (Some x) st' of (ms, out, st'') \<Rightarrow> (mw # ms, out, st'')))
      else walk e c now req ls err st)"

text \<open>
  When the stack is exhausted Express answers itself: 404, or 500 for a pending error.
\<close>

definition dispatch ::
  "env \<Rightarrow> collaborators \<Rightarrow> nat \<Rightarrow> request \<Rightarrow> stores \<Rightarrow> middleware list \<times> response \<times> stores" where
  "dispatch e c now req st =
     (case walk e c now req app None st of
        (ms, Inl r, st') \<Rightarrow> (ms, r, st')
      | (ms, Inr err, st') \<Rightarrow>
          (ms, \<lparr>status = (if err = None then 404 else 500), body = Empty\<rparr>, st'))"

text \<open>
  When the response is finished, every limiter the request went through sees it
  (\<^verbatim>\<open>skipSuccessfulRequests\<close>).
\<close>

fun finish :: "nat \<Rightarrow> request \<Rightarrow> response \<Rightarrow> middleware \<Rightarrow> stores \<Rightarrow> stores" where
  "finish now req r (RateLimit l) st =
     put_store l (on_finish (options_of l) now (ip req) r (store_of l st)) st"
| "finish now req r _ st = st"

text \<open>
  One request: the middleware that ran for it, in order, the response, and the stores of
  the limiters afterwards.
\<close>

definition handle_request ::
  "env \<Rightarrow> collaborators \<Rightarrow> nat \<Rightarrow> request \<Rightarrow> stores \<Rightarrow> middleware list \<times> response \<times> stores" where
  "handle_request e c now req st =
     (case dispatch e c now req st of
        (ms, r, st') \<Rightarrow> (ms, r, fold (finish now req r) ms st'))"

text \<open>Requests served one after the other, each at its time of arrival.\<close>

fun serve ::
  "env \<Rightarrow> collaborators \<Rightarrow> (nat \<times> request) list \<Rightarrow> stores
    \<Rightarrow> (middleware list \<times> response) list \<times> stores" where
  "serve e c [] st = ([], st)"
| "serve e c ((now, req) # rs) st =
     (case handle_request e c now req st of
        (ms, r, st') \<Rightarrow>
          (case serve e c rs st' of (outs, st'') \<Rightarrow> ((ms, r) # outs, st'')))"

text \<open>
  The layers behind the security middleware, and the paths the two limiters are mounted
  on.
\<close>

definition after_security :: "layer list" where
  "after_security = logging @ cors_configuration @ body_parsers @ static_file_serving @
     root_route @ api_routes @ not_found_handler"

definition under_api :: "request \<Rightarrow> bool" where
  "under_api req = use_matches ''/api/'' (path req)"

definition auth_path :: "request \<Rightarrow> bool" where
  "auth_path req =
     (use_matches ''/api/auth/login'' (path req) \<or> use_matches ''/api/auth/register'' (path req))"

text \<open>The limiters that are mounted on the path of a request, in the order of the stack.\<close>

definition limiters_on :: "request \<Rightarrow> middleware list" where
  "limiters_on req =
     (if under_api req then [RateLimit General] else []) @
     (if auth_path req then [RateLimit Auth] else [])"

text \<open>The layers of dispatch: the static file servers, the routes and the fallback.\<close>

definition dispatch_layers :: "layer list" where
  "dispatch_layers = static_file_serving @ root_route @ api_routes @ not_found_handler"

text \<open>The middleware that runs behind the security middleware, and the response.\<close>

definition behind_security ::
  "env \<Rightarrow> collaborators \<Rightarrow> nat \<Rightarrow> request \<Rightarrow> stores \<Rightarrow> middleware list \<times> response" where
  "behind_security e c now req st =
     (case walk e c now req after_security None st of
        (ms, Inl r, st') \<Rightarrow> (ms, r)
      | (ms, Inr err, st') \<Rightarrow>
          (ms, \<lparr>status = (if err = None then 404 else 500), body = Empty\<rparr>))"

text \<open>
  What an observer sees of a limiter in the outcome of a request: the limiter let the
  request proceed when it ran and was not the last middleware to run; it rejected the
  request when it was the last to run and the response is its rejection.
\<close>

definition proceeds_past :: "limiter_id \<Rightarrow> middleware list \<times> response \<Rightarrow> bool" where
  "proceeds_past l out = (RateLimit l \<in> set (fst out) \<and> last (fst out) \<noteq> RateLimit l)"

definition rejected_by :: "limiter_id \<Rightarrow> middleware list \<times> response \<Rightarrow> bool" where
  "rejected_by l out =
     (fst out \<noteq> [] \<and> last (fst out) = RateLimit l \<and>
      snd out = \<lparr>status = 429, body = Text (message (options_of l))\<rparr>)"

text \<open>
  An attempt that consumes quota of the auth limiter: the limiter saw the request and the
  response was not successful.
\<close>

definition consumed :: "middleware list \<times> response \<Rightarrow> bool" where
  "consumed out = (RateLimit Auth \<in> set (fst out) \<and> \<not> successful (snd out))"

text \<open>
  The count of a client's window as a request arriving now would find it, a client
  without a live window at a given time, and a client whose window over the period that
  begins at \<open>t0\<close> holds \<open>n\<close> hits.
\<close>

definition window_count :: "limiter_options \<Rightarrow> nat \<Rightarrow> store \<Rightarrow> string \<Rightarrow> nat" where
  "window_count opts now st k = count (current_window opts now st k)"

definition fresh :: "limiter_options \<Rightarrow> nat \<Rightarrow> store \<Rightarrow> string \<Rightarrow> bool" where
  "fresh opts t0 st k =
     (case st k of None \<Rightarrow> True | Some w \<Rightarrow> start w + windowMs opts \<le> t0)"

definition window_holds :: "limiter_options \<Rightarrow> nat \<Rightarrow> nat \<Rightarrow> store \<Rightarrow> string \<Rightarrow> bool" where
  "window_holds opts t0 n st k =
     (case st k of
        None \<Rightarrow> n = 0
      | Some w \<Rightarrow> if start w + windowMs opts \<le> t0 then n = 0 else t0 \<le> start w \<and> count w = n)"

text \<open>
  In a sequence of timed requests, the requests of client \<open>k\<close> that the general limiter
  is mounted on, and those that the auth limiter is mounted on.
\<close>

definition api_request_of :: "string \<Rightarrow> nat \<times> request \<Rightarrow> bool" where
  "api_request_of k tr = (ip (snd tr) = k \<and> under_api (snd tr))"

definition auth_attempt_of :: "string \<Rightarrow> nat \<times> request \<Rightarrow> bool" where
  "auth_attempt_of k tr = (ip (snd tr) = k \<and> auth_path (snd tr))"

definition within :: "limiter_options \<Rightarrow> nat \<Rightarrow> nat \<Rightarrow> bool" where
  "within opts t0 t = (t0 \<le> t \<and> t < t0 + windowMs opts)"

text \<open>
  In a sequence of requests paired with their outcomes, the number of attempts of client
  \<open>k\<close> that consumed quota of the auth limiter.
\<close>

definition spent ::
  "string \<Rightarrow> ((nat \<times> request) \<times> (middleware list \<times> response)) list \<Rightarrow> nat" where
  "spent k xs = length (filter (\<lambda>(tr, out). ip (snd tr) = k \<and> consumed out) xs)"

text \<open>
  A request that the admission stages pass on: no limiter rejects it, \<^verbatim>\<open>cors\<close> neither
  refuses it nor answers it as a preflight, and the body parsers accept it.
\<close>

definition passes_limiters :: "nat \<Rightarrow> request \<Rightarrow> stores \<Rightarrow> bool" where
  "passes_limiters now req st =
     ((under_api req \<longrightarrow> window_count limiter now (general st) (ip req) < max' limiter) \<and>
      (auth_path req \<longrightarrow> window_count authLimiter now (auth st) (ip req) < max' authLimiter))"

definition passes_cors :: "env \<Rightarrow> request \<Rightarrow> bool" where
  "passes_cors e req =
     (case cors e (origin req) of
        Inl x \<Rightarrow> False
      | Inr d \<Rightarrow> \<not> (allow d \<and> method req = ''OPTIONS''))"

definition passes_body_parsers :: "collaborators \<Rightarrow> request \<Rightarrow> bool" where
  "passes_body_parsers c req = (json_parser c req = None \<and> urlencoded_parser c req = None)"

definition admitted :: "env \<Rightarrow> collaborators \<Rightarrow> nat \<Rightarrow> request \<Rightarrow> stores \<Rightarrow> bool" where
  "admitted e c now req st =
     (passes_limiters now req st \<and> passes_cors e req \<and> passes_body_parsers c req)"

text \<open>A path that matches none of the mount paths and routes of the route layers.\<close>

fun mount_path :: "mount \<Rightarrow> string \<Rightarrow> bool" where
  "mount_path (Use m) p = use_matches m p"
| "mount_path (Get r) p = route_matches r p"

definition matches_no_route :: "request \<Rightarrow> bool" where
  "matches_no_route req =
     list_all (\<lambda>(m, mw). \<not> mount_path m (path req))
       (static_file_serving @ root_route @ api_routes)"

text \<open>The value of a field of a JSON body.\<close>

definition field :: "body \<Rightarrow> string \<Rightarrow> jval option" where
  "field b name = (case b of Json fs \<Rightarrow> map_of fs name | _ \<Rightarrow> None)"

text \<open>
  The stages of the admission pipeline and the order in which the specification lists
  them; every handler from the static file server on belongs to dispatch.
\<close>

datatype stage = SecurityHeaders | RateLimiting | Logging | CorsEvaluation | BodyParsing | Dispatch

fun stage_of :: "middleware \<Rightarrow> stage" where
  "stage_of Helmet = SecurityHeaders"
| "stage_of (RateLimit _) = RateLimiting"
| "stage_of Morgan = Logging"
| "stage_of Cors = CorsEvaluation"
| "stage_of JsonParser = BodyParsing"
| "stage_of UrlencodedParser = BodyParsing"
| "stage_of _ = Dispatch"

fun stage_rank :: "stage \<Rightarrow> nat" where
  "stage_rank SecurityHeaders = 0"
| "stage_rank RateLimiting = 1"
| "stage_rank Logging = 2"
| "stage_rank CorsEvaluation = 3"
| "stage_rank BodyParsing = 4"
| "stage_rank Dispatch = 5"

definition in_stage_order :: "middleware list \<Rightarrow> bool" where
  "in_stage_order ms = sorted (map (stage_rank \<circ> stage_of) ms)"

text \<open>
  Sample inputs for the examples: collaborators that accept every body, serve no file
  and whose routers answer with a given status; limiters that have seen no request; a
  request without an \<^verbatim>\<open>Origin\<close> header.
\<close>

definition answering :: "nat \<Rightarrow> collaborators" where
  "answering code =
     \<lparr>json_parser = (\<lambda>req. None), urlencoded_parser = (\<lambda>req. None),
      static = (\<lambda>root req. None),
      router = (\<lambda>name req. Respond \<lparr>status = code, body = Json [(''success'', JBool (code < 400))]\<rparr>),
      errorHandler = (\<lambda>x req. \<lparr>status = 500,
        body = Json [(''success'', JBool False), (''error'', JString (case x of Error m \<Rightarrow> m))]\<rparr>)\<rparr>"

definition no_hits :: stores where
  "no_hits = \<lparr>general = Map.empty, auth = Map.empty\<rparr>"

definition request_to :: "string \<Rightarrow> string \<Rightarrow> request" where
  "request_to m p = \<lparr>method = m, path = p, originalUrl = p, origin = None, ip = ''203.0.113.7''\<rparr>"

definition login_attempt :: request where
  "login_attempt = request_to ''POST'' ''/api/auth/login''"

definition exhausted_general :: stores where
  "exhausted_general =
     \<lparr>general = [''203.0.113.7'' \<mapsto> \<lparr>start = 0, count = 100\<rparr>], auth = Map.empty\<rparr>"

section \<open>Start-up and shutdown (\<^verbatim>\<open>connectDB\<close>)\<close>

text \<open>
  The calls the process makes into its runtime, and the events the runtime delivers to
  the code of \<^verbatim>\<open>connectDB\<close>: the outcome of \<^verbatim>\<open>await mongoose.connect\<close>, the callback of
  \<^verbatim>\<open>app.listen\<close>, the server's \<^verbatim>\<open>error\<close> event with \<^verbatim>\<open>err.code\<close>, the signal \<^verbatim>\<open>SIGTERM\<close>, and
  the callbacks given to \<^verbatim>\<open>server.close\<close> and \<^verbatim>\<open>mongoose.connection.close\<close>.
  \<open>Connected host thrown\<close> carries the host of the connection and, when a call in the
  rest of the \<^verbatim>\<open>try\<close> block throws, the message of that exception.
\<close>

datatype call =
    MongooseConnect string
  | ConsoleLog string
  | ConsoleError string
  | AppListen string
  | ServerClose
  | ConnectionClose
  | ProcessExit int

datatype event =
    Connected string "string option"
  | ConnectFailed string
  | Listening
  | ServerError string
  | Sigterm
  | ServerClosed
  | ConnectionClosed

datatype entry = Event event | Call call

text \<open>
  The state of the process: the exit code once the process has ended, whether
  \<^verbatim>\<open>mongoose.connect\<close> is still pending, whether the server exists (its \<^verbatim>\<open>error\<close> handler and
  the \<^verbatim>\<open>SIGTERM\<close> handler are registered right after \<^verbatim>\<open>app.listen\<close>), the callbacks handed to
  \<^verbatim>\<open>server.close\<close> and to \<^verbatim>\<open>mongoose.connection.close\<close> that have not been called yet,
  and the log of events handled and calls made, oldest first.
\<close>

record process =
  exited :: "int option"
  connecting :: bool
  server :: bool
  close_callbacks :: nat
  db_close_callbacks :: nat
  log :: "entry list"

definition mongodb_uri :: "env \<Rightarrow> string" where
  "mongodb_uri e = or_default (MONGODB_URI e) ''mongodb://localhost:27017/employee_attendance''"

definition port :: "env \<Rightarrow> string" where
  "port e = or_default (PORT e) ''5000''"

definition check_mark :: string where
  "check_mark = [CHR 0xE2, CHR 0x9C, CHR 0x85]"

definition cross_mark :: string where
  "cross_mark = [CHR 0xE2, CHR 0x9D, CHR 0x8C]"

definition rocket :: string where
  "rocket = [CHR 0xF0, CHR 0x9F, CHR 0x9A, CHR 0x80]"

text \<open>\<^verbatim>\<open>connectDB()\<close> is called when the module is loaded and awaits the connection.\<close>

definition connectDB :: "env \<Rightarrow> process" where
  "connectDB e = \<lparr>exited = None, connecting = True, server = False, close_callbacks = 0,
     db_close_callbacks = 0, log = [Call (MongooseConnect (mongodb_uri e))]\<rparr>"

definition record_entries :: "entry list \<Rightarrow> process \<Rightarrow> process" where
  "record_entries es p = p\<lparr>log := log p @ es\<rparr>"

definition process_exit :: "int \<Rightarrow> process \<Rightarrow> process" where
  "process_exit code p = (record_entries [Call (ProcessExit code)] p)\<lparr>exited := Some code\<rparr>"

text \<open>
  The code that runs for one event. An event for which no code of the program is
  waiting leaves the state as it is; so does every event after the process has exited.
  A \<^verbatim>\<open>SIGTERM\<close> that arrives before the handler is registered ends the process by the
  signal's default action (shown as status 143) without any call of the program.
\<close>

fun step :: "env \<Rightarrow> event \<Rightarrow> process \<Rightarrow> process" where
  "step e (Connected host thrown) p =
     (if exited p \<noteq> None \<or> \<not> connecting p then p
      else
        let p1 = (record_entries
                   [Event (Connected host thrown),
                    Call (ConsoleLog (check_mark @ '' MongoDB Connected: '' @ host)),
                    Call (AppListen (port e))] p)\<lparr>connecting := False\<rparr>
        in case thrown of
             None \<Rightarrow> p1\<lparr>server := True\<rparr>
           | Some msg \<Rightarrow>
               process_exit 1
                 (record_entries
                    [Call (ConsoleError (cross_mark @ '' MongoDB connection error: '' @ msg))] p1))"
| "step e (ConnectFailed msg) p =
     (if exited p \<noteq> None \<or> \<not> connecting p then p
      else
        process_exit 1
          (record_entries
             [Event (ConnectFailed msg),
              Call (ConsoleError (cross_mark @ '' MongoDB connection error: '' @ msg))]
             (p\<lparr>connecting := False\<rparr>)))"
| "step e Listening p =
     (if exited p \<noteq> None \<or> \<not> server p then p
      else
        record_entries
          [Event Listening,
           Call (ConsoleLog (rocket @ '' Server running on port '' @ port e @ '' in '' @
             or_default (NODE_ENV e) ''development'' @ '' mode''))] p)"
| "step e (ServerError code) p =
     (if exited p \<noteq> None \<or> \<not> server p then p
      else if code = ''EADDRINUSE'' then
        process_exit 1
          (record_entries
             [Event (ServerError code),
              Call (ConsoleError (cross_mark @ '' Port '' @ port e @ '' is already in use!''))] p)
      else
        process_exit 1
          (record_entries
             [Event (ServerError code), Call (ConsoleError (''Server error: '' @ code))] p))"
| "step e Sigterm p =
     (if exited p \<noteq> None then p
      else if \<not> server p then (record_entries [Event Sigterm] p)\<lparr>exited := Some 143\<rparr>
      else
        (record_entries [Event Sigterm, Call ServerClose] p)
          \<lparr>close_callbacks := close_callbacks p + 1\<rparr>)"
| "step e ServerClosed p =
     (if exited p \<noteq> None \<or> close_callbacks p = 0 then p
      else
        (record_entries [Event ServerClosed, Call ConnectionClose] p)
          \<lparr>close_callbacks := close_callbacks p - 1,
           db_close_callbacks := db_close_callbacks p + 1\<rparr>)"
| "step e ConnectionClosed p =
     (if exited p \<noteq> None \<or> db_close_callbacks p = 0 then p
      else
        process_exit 0
          ((record_entries [Event ConnectionClosed] p)
             \<lparr>db_close_callbacks := db_close_callbacks p - 1\<rparr>))"

text \<open>The process handles the events one after the other.\<close>

fun run :: "env \<Rightarrow> event list \<Rightarrow> process \<Rightarrow> process" where
  "run e [] p = p"
| "run e (ev # evs) p = run e evs (step e ev p)"

text \<open>
  The states of the shutdown coordinator, read off the process: running while no close
  is under way, draining while a callback of \<^verbatim>\<open>server.close\<close> is pending, closing the
  database while a callback of \<^verbatim>\<open>mongoose.connection.close\<close> is pending.
\<close>

datatype phase = STARTING | RUNNING | DRAINING | DB_CLOSING | TERMINATED int

definition phase_of :: "process \<Rightarrow> phase" where
  "phase_of p =
     (case exited p of
        Some code \<Rightarrow> TERMINATED code
      | None \<Rightarrow>
          if 0 < db_close_callbacks p then DB_CLOSING
          else if 0 < close_callbacks p then DRAINING
          else if server p then RUNNING
          else STARTING)"

text \<open>
  \<open>preceded P Q xs\<close>: in \<open>xs\<close>, every entry that satisfies \<open>Q\<close> has an entry that
  satisfies \<open>P\<close> somewhere before it.
\<close>

fun preceded :: "('a \<Rightarrow> bool) \<Rightarrow> ('a \<Rightarrow> bool) \<Rightarrow> 'a list \<Rightarrow> bool" where
  "preceded P Q [] = True"
| "preceded P Q (x # xs) = (\<not> Q x \<and> (P x \<or> preceded P Q xs))"

text \<open>The entries of the log that the properties of start-up and shutdown speak about.\<close>

fun is_listen :: "entry \<Rightarrow> bool" where
  "is_listen (Call (AppListen _)) = True"
| "is_listen _ = False"

fun is_connected :: "entry \<Rightarrow> bool" where
  "is_connected (Event (Connected _ _)) = True"
| "is_connected _ = False"

text \<open>
  The order of a shutdown in a log: the signal before \<^verbatim>\<open>server.close\<close>, that call before
  its callback, the callback before \<^verbatim>\<open>mongoose.connection.close\<close>, that call before its
  callback, and that callback before \<^verbatim>\<open>process.exit(0)\<close>.
\<close>

definition shutdown_ordered :: "entry list \<Rightarrow> bool" where
  "shutdown_ordered l =
     (preceded (\<lambda>x. x = Event Sigterm) (\<lambda>x. x = Call ServerClose) l \<and>
      preceded (\<lambda>x. x = Call ServerClose) (\<lambda>x. x = Event ServerClosed) l \<and>
      preceded (\<lambda>x. x = Event ServerClosed) (\<lambda>x. x = Call ConnectionClose) l \<and>
      preceded (\<lambda>x. x = Call ConnectionClose) (\<lambda>x. x = Event ConnectionClosed) l \<and>
      preceded (\<lambda>x. x = Event ConnectionClosed) (\<lambda>x. x = Call (ProcessExit 0)) l)"

text \<open>Invariants of the process used in the proofs.\<close>

definition pending_ok :: "process \<Rightarrow> bool" where
  "pending_ok p =
     ((0 < close_callbacks p \<longrightarrow> Call ServerClose \<in> set (log p)) \<and>
      (0 < db_close_callbacks p \<longrightarrow> Call ConnectionClose \<in> set (log p)))"

definition listen_once :: "env \<Rightarrow> process \<Rightarrow> bool" where
  "listen_once e p =
     (if connecting p then filter is_listen (log p) = []
      else filter is_listen (log p) = [] \<or>
           filter is_listen (log p) = [Call (AppListen (port e))])"

section \<open>Properties of the CORS evaluator\<close>

lemma truthy_Some: "truthy (Some s) = (s \<noteq> [])"
  by (simp add: truthy_def)

lemma truthy_None: "truthy None = False"
  by (simp add: truthy_def)

lemma allowed_truthy_iff:
  "s \<noteq> [] \<Longrightarrow> Some s \<in> set (allowed e) \<longleftrightarrow> s \<in> spec_allow_list e"
  by (cases "FRONTEND_URL e") (auto simp: allowed_def spec_allow_list_def truthy_def)

text \<open>
  C1, as the code has it. A request without an \<^verbatim>\<open>Origin\<close> header, or with an empty one,
  is allowed; any other origin is allowed when it is in the allow-list or the mode is not
  \<^verbatim>\<open>production\<close>, and is otherwise refused with the error \<^verbatim>\<open>Not allowed by CORS\<close>. Every
  allowed decision reflects the origin and grants credentialed exchange.
\<close>

theorem cors_decision_rule:
  "cors e orig =
     (case orig of
        None \<Rightarrow> Inr \<lparr>allow = True, allow_origin = None, allow_credentials = True\<rparr>
      | Some s \<Rightarrow>
          if s = [] \<or> s \<in> spec_allow_list e \<or> NODE_ENV e \<noteq> Some ''production''
          then Inr \<lparr>allow = True, allow_origin = Some s, allow_credentials = True\<rparr>
          else Inl (Error ''Not allowed by CORS''))"
proof (cases orig)
  case None
  then show ?thesis
    by (simp add: cors_def corsOptions_origin_def truthy_None corsOptions_credentials_def)
next
  case (Some s)
  show ?thesis
  proof (cases "s = []")
    case True
    with Some show ?thesis
      by (simp add: cors_def corsOptions_origin_def truthy_Some corsOptions_credentials_def)
  next
    case False
    with Some allowed_truthy_iff [OF False, of e] show ?thesis
      by (simp add: cors_def corsOptions_origin_def truthy_Some corsOptions_credentials_def)
  qed
qed

theorem cors_decision_rule_witness:
  "cors production_env (Some ''http://localhost:5173'') =
     Inr \<lparr>allow = True, allow_origin = Some ''http://localhost:5173'', allow_credentials = True\<rparr>
   \<and> cors production_env (Some ''http://evil.example'') = Inl (Error ''Not allowed by CORS'')
   \<and> cors (production_env\<lparr>NODE_ENV := Some ''development''\<rparr>) (Some ''http://evil.example'') =
     Inr \<lparr>allow = True, allow_origin = Some ''http://evil.example'', allow_credentials = True\<rparr>"
  using cors_decision_rule [of production_env "Some ''http://localhost:5173''"]
    cors_decision_rule [of production_env "Some ''http://evil.example''"]
    cors_decision_rule [of "production_env\<lparr>NODE_ENV := Some ''development''\<rparr>"
      "Some ''http://evil.example''"]
  by (simp add: production_env_def spec_allow_list_def)

text \<open>
  The claim as written takes the deny branch for every request that carries an
  \<^verbatim>\<open>Origin\<close> header outside the allow-list in production. A request whose \<^verbatim>\<open>Origin\<close>
  header is present but empty is such a request, and the code allows it, because the
  guard \<^verbatim>\<open>!origin\<close> is also true of the empty string.
\<close>

theorem cors_empty_origin_counterexample:
  "Some [] \<noteq> (None :: string option)
   \<and> [] \<notin> spec_allow_list production_env
   \<and> NODE_ENV production_env = Some ''production''
   \<and> cors production_env (Some []) =
       Inr \<lparr>allow = True, allow_origin = Some [], allow_credentials = True\<rparr>"
  by (simp add: production_env_def spec_allow_list_def cors_def corsOptions_origin_def
      truthy_def corsOptions_credentials_def)

section \<open>The order of the middleware\<close>

lemma walk_subseq:
  "walk e c now req ls err st = (ms, out, st') \<Longrightarrow> subseq ms (map snd ls)"
proof (induction ls arbitrary: err st ms out st')
  case Nil
  then show ?case by simp
next
  case (Cons l ls)
  obtain m mw where l: "l = (m, mw)" by (cases l)
  show ?case
  proof (cases "layer_matches m req \<and> handles_errors mw = (err \<noteq> None)")
    case False
    with Cons.prems l have "walk e c now req ls err st = (ms, out, st')" by auto
    from Cons.IH [OF this] l show ?thesis by (simp add: list_emb_Cons)
  next
    case True
    obtain h st1 where h: "handle e c now req err mw st = (h, st1)"
      by (cases "handle e c now req err mw st")
    show ?thesis
    proof (cases h)
      case Next
      obtain ms1 out1 st2 where w: "walk e c now req ls None st1 = (ms1, out1, st2)"
        by (cases "walk e c now req ls None st1")
      with Cons.prems l True h Next have "ms = mw # ms1" by simp
      with Cons.IH [OF w] l show ?thesis by simp
    next
      case (Respond r)
      with Cons.prems l True h have "ms = [mw]" by simp
      with l show ?thesis by simp
    next
      case (Throw x)
      obtain ms1 out1 st2 where w: "walk e c now req ls (Some x) st1 = (ms1, out1, st2)"
        by (cases "walk e c now req ls (Some x) st1")
      with Cons.prems l True h Throw have "ms = mw # ms1" by simp
      with Cons.IH [OF w] l show ?thesis by simp
    qed
  qed
qed

lemma subseq_sorted_map:
  "subseq xs ys \<Longrightarrow> sorted (map f ys) \<Longrightarrow> sorted (map f xs)"
proof (induction rule: list_emb.induct)
  case (list_emb_Nil ys)
  then show ?case by simp
next
  case (list_emb_Cons xs ys y)
  then show ?case by simp
next
  case (list_emb_Cons2 x y xs ys)
  from list_emb_Cons2.hyps(2) have "set xs \<subseteq> set ys"
    by (auto elim: list_emb_set)
  with list_emb_Cons2 show ?case by auto
qed

lemmas app_layers = app_def security_middleware_def logging_def cors_configuration_def
  body_parsers_def static_file_serving_def root_route_def api_routes_def not_found_handler_def

lemma app_stage_order: "in_stage_order (map snd app)"
  by (simp add: in_stage_order_def app_layers)

lemma handle_request_ms:
  "fst (handle_request e c now req st) = fst (walk e c now req app None st)"
  by (simp add: handle_request_def dispatch_def split: prod.splits sum.splits)

section \<open>Paths, layers and stores\<close>

lemma to_lower_chars:
  "to_lower (CHR ''/'') = CHR ''/''" "to_lower (CHR ''-'') = CHR ''-''"
  "to_lower (CHR ''a'') = CHR ''a''" "to_lower (CHR ''b'') = CHR ''b''"
  "to_lower (CHR ''c'') = CHR ''c''" "to_lower (CHR ''d'') = CHR ''d''"
  "to_lower (CHR ''e'') = CHR ''e''" "to_lower (CHR ''f'') = CHR ''f''"
  "to_lower (CHR ''g'') = CHR ''g''" "to_lower (CHR ''h'') = CHR ''h''"
  "to_lower (CHR ''i'') = CHR ''i''" "to_lower (CHR ''k'') = CHR ''k''"
  "to_lower (CHR ''l'') = CHR ''l''" "to_lower (CHR ''n'') = CHR ''n''"
  "to_lower (CHR ''o'') = CHR ''o''" "to_lower (CHR ''p'') = CHR ''p''"
  "to_lower (CHR ''r'') = CHR ''r''" "to_lower (CHR ''s'') = CHR ''s''"
  "to_lower (CHR ''t'') = CHR ''t''" "to_lower (CHR ''u'') = CHR ''u''"
  "to_lower (CHR ''v'') = CHR ''v''" "to_lower (CHR ''y'') = CHR ''y''"
  "to_lower (CHR ''w'') = CHR ''w''"
  by (simp_all add: to_lower_def)

lemma use_slash: "use_matches ''/'' p"
  by (simp add: use_matches_def)

lemma use_matches_iff:
  assumes "mount \<noteq> ''/''"
  shows "use_matches mount p \<longleftrightarrow>
     (\<exists>rest. map to_lower p = map to_lower (strip_slash mount) @ rest \<and>
        (case rest of [] \<Rightarrow> True | x # _ \<Rightarrow> x = CHR ''/''))"
proof
  let ?m = "map to_lower (strip_slash mount)" and ?q = "map to_lower p"
  assume "use_matches mount p"
  with assms have t: "take (length ?m) ?q = ?m"
    and d: "case drop (length ?m) ?q of [] \<Rightarrow> True | x # _ \<Rightarrow> x = CHR ''/''"
    by (simp_all add: use_matches_def Let_def)
  have "?q = take (length ?m) ?q @ drop (length ?m) ?q" by simp
  with t have "?q = ?m @ drop (length ?m) ?q" by simp
  with d show "\<exists>rest. ?q = ?m @ rest \<and> (case rest of [] \<Rightarrow> True | x # _ \<Rightarrow> x = CHR ''/'')"
    by blast
next
  let ?m = "map to_lower (strip_slash mount)" and ?q = "map to_lower p"
  assume "\<exists>rest. ?q = ?m @ rest \<and> (case rest of [] \<Rightarrow> True | x # _ \<Rightarrow> x = CHR ''/'')"
  then obtain rest where q: "?q = ?m @ rest"
    and r: "case rest of [] \<Rightarrow> True | x # _ \<Rightarrow> x = CHR ''/''" by blast
  from q have "take (length ?m) ?q = ?m" "drop (length ?m) ?q = rest"
    by simp_all
  with r assms show "use_matches mount p"
    by (simp add: use_matches_def Let_def del: length_map)
qed

lemma mounts_lower:
  "map to_lower (strip_slash ''/api/'') = ''/api''"
  "map to_lower (strip_slash ''/api/auth/login'') = ''/api/auth/login''"
  "map to_lower (strip_slash ''/api/auth/register'') = ''/api/auth/register''"
  "map to_lower (strip_slash ''/api/auth'') = ''/api/auth''"
  by (simp_all add: strip_slash_def to_lower_chars)

lemma under_api_prefix: "path req = ''/api/'' @ rest \<Longrightarrow> under_api req"
  by (simp add: under_api_def use_matches_iff mounts_lower to_lower_chars)

lemma login_not_register:
  "\<not> (use_matches ''/api/auth/login'' p \<and> use_matches ''/api/auth/register'' p)"
  by (auto simp: use_matches_iff mounts_lower)

lemma auth_path_under_api: "auth_path req \<Longrightarrow> under_api req"
  by (auto simp: auth_path_def under_api_def use_matches_iff mounts_lower)


lemma walk_append:
  "walk e c now req (l1 @ l2) err st =
     (case walk e c now req l1 err st of
        (ms1, Inl r, st1) \<Rightarrow> (ms1, Inl r, st1)
      | (ms1, Inr err1, st1) \<Rightarrow>
          (case walk e c now req l2 err1 st1 of (ms2, out, st2) \<Rightarrow> (ms1 @ ms2, out, st2)))"
proof (induction l1 arbitrary: err st)
  case Nil
  then show ?case by (simp split: prod.splits)
next
  case (Cons l l1)
  obtain m mw where l: "l = (m, mw)" by (cases l)
  show ?case
  proof (cases "layer_matches m req \<and> handles_errors mw = (err \<noteq> None)")
    case False
    with l Cons.IH [of err st] show ?thesis by auto
  next
    case True
    obtain h st1 where h: "handle e c now req err mw st = (h, st1)"
      by (cases "handle e c now req err mw st")
    show ?thesis
    proof (cases h)
      case Next
      with l True h Cons.IH [of None st1] show ?thesis
        by (simp split: prod.splits sum.splits)
    next
      case (Respond r)
      with l True h show ?thesis by simp
    next
      case (Throw x)
      with l True h Cons.IH [of "Some x" st1] show ?thesis
        by (simp split: prod.splits sum.splits)
    qed
  qed
qed

lemma handle_frame:
  "(\<And>l. mw \<noteq> RateLimit l) \<Longrightarrow> snd (handle e c now req err mw st) = st"
  by (cases mw) (auto split: sum.splits option.splits)

lemma walk_frame:
  "walk e c now req ls err st = (ms, out, st') \<Longrightarrow>
   (\<And>l. RateLimit l \<notin> snd ` set ls) \<Longrightarrow> st' = st"
proof (induction ls arbitrary: err st ms out st')
  case Nil
  then show ?case by simp
next
  case (Cons l ls)
  obtain m mw where l: "l = (m, mw)" by (cases l)
  from Cons.prems(2) l have mw: "\<And>l. mw \<noteq> RateLimit l" and rest: "\<And>l. RateLimit l \<notin> snd ` set ls"
    by force+
  show ?case
  proof (cases "layer_matches m req \<and> handles_errors mw = (err \<noteq> None)")
    case False
    with Cons.prems(1) l have "walk e c now req ls err st = (ms, out, st')" by auto
    from Cons.IH [OF this rest] show ?thesis .
  next
    case True
    obtain h st1 where h: "handle e c now req err mw st = (h, st1)"
      by (cases "handle e c now req err mw st")
    with handle_frame [OF mw, of e c now req err st] have st1: "st1 = st" by simp
    show ?thesis
    proof (cases h)
      case Next
      obtain ms1 out1 st2 where w: "walk e c now req ls None st1 = (ms1, out1, st2)"
        by (cases "walk e c now req ls None st1")
      with Cons.prems(1) l True h Next have "st' = st2" by simp
      with Cons.IH [OF w rest] st1 show ?thesis by simp
    next
      case (Respond r)
      with Cons.prems(1) l True h st1 show ?thesis by simp
    next
      case (Throw x)
      obtain ms1 out1 st2 where w: "walk e c now req ls (Some x) st1 = (ms1, out1, st2)"
        by (cases "walk e c now req ls (Some x) st1")
      with Cons.prems(1) l True h Throw have "st' = st2" by simp
      with Cons.IH [OF w rest] st1 show ?thesis by simp
    qed
  qed
qed

lemma walk_ran:
  "walk e c now req ls err st = (ms, out, st') \<Longrightarrow> set ms \<subseteq> snd ` set ls"
proof -
  assume "walk e c now req ls err st = (ms, out, st')"
  then have "subseq ms (map snd ls)" by (rule walk_subseq)
  then have "set ms \<subseteq> set (map snd ls)" by (auto elim: list_emb_set)
  then show ?thesis by simp
qed

lemma after_security_no_limiter: "RateLimit l \<notin> snd ` set after_security"
  by (simp add: after_security_def logging_def cors_configuration_def body_parsers_def
      static_file_serving_def root_route_def api_routes_def not_found_handler_def)

lemma app_split: "app = security_middleware @ after_security"
  by (simp add: app_def after_security_def)

lemma walk_security:
  "walk e c now req security_middleware None st =
     (if under_api req then
        (case rateLimit limiter now (ip req) (general st) of
           (g, Some r) \<Rightarrow> ([Helmet, RateLimit General], Inl r, st\<lparr>general := g\<rparr>)
         | (g, None) \<Rightarrow>
             (if auth_path req then
                (case rateLimit authLimiter now (ip req) (auth st) of
                   (a, Some r) \<Rightarrow>
                     ([Helmet, RateLimit General, RateLimit Auth], Inl r,
                      st\<lparr>general := g, auth := a\<rparr>)
                 | (a, None) \<Rightarrow>
                     ([Helmet, RateLimit General, RateLimit Auth], Inr None,
                      st\<lparr>general := g, auth := a\<rparr>))
              else ([Helmet, RateLimit General], Inr None, st\<lparr>general := g\<rparr>)))
      else ([Helmet], Inr None, st))"
proof -
  have both: "\<not> (use_matches ''/api/auth/login'' (path req) \<and>
      use_matches ''/api/auth/register'' (path req))"
    by (rule login_not_register)
  have api: "auth_path req \<Longrightarrow> under_api req" by (rule auth_path_under_api)
  show ?thesis
    using both api
    by (auto simp: security_middleware_def use_slash handles_errors_def under_api_def
        auth_path_def split: prod.splits option.splits)
qed

lemma finish_other: "\<forall>l. mw \<noteq> RateLimit l \<Longrightarrow> finish now req r mw st = st"
  by (cases mw) simp_all

lemma fold_finish_frame:
  "(\<And>l. RateLimit l \<notin> set ms) \<Longrightarrow> fold (finish now req r) ms st = st"
proof (induction ms arbitrary: st)
  case Nil
  then show ?case by simp
next
  case (Cons mw ms)
  from Cons.prems have "\<forall>l. mw \<noteq> RateLimit l" "\<And>l. RateLimit l \<notin> set ms" by auto
  with Cons.IH finish_other [of mw now req r st] show ?case by simp
qed

lemma behind_security_walk:
  "walk e c now req after_security None st = (ms, out, st') \<Longrightarrow>
   st' = st \<and> (\<forall>l. RateLimit l \<notin> set ms) \<and>
   behind_security e c now req st =
     (ms, case out of Inl r \<Rightarrow> r
          | Inr err \<Rightarrow> \<lparr>status = (if err = None then 404 else 500), body = Empty\<rparr>)"
proof -
  assume w: "walk e c now req after_security None st = (ms, out, st')"
  from walk_frame [OF w after_security_no_limiter] have "st' = st" .
  moreover from walk_ran [OF w] after_security_no_limiter have "\<forall>l. RateLimit l \<notin> set ms"
    by blast
  moreover from w have "behind_security e c now req st =
     (ms, case out of Inl r \<Rightarrow> r
          | Inr err \<Rightarrow> \<lparr>status = (if err = None then 404 else 500), body = Empty\<rparr>)"
    by (simp add: behind_security_def split: sum.splits)
  ultimately show ?thesis by blast
qed

lemma finish_general: "on_finish limiter now k r s = s"
  by (simp add: on_finish_def limiter_def)

lemma rejection_not_successful:
  "rateLimit opts now k st = (st', Some r) \<Longrightarrow> \<not> successful r"
  by (auto simp: rateLimit_def successful_def Let_def split: prod.splits if_splits)

lemma handle_request_cases:
  "handle_request e c now req st =
     (if under_api req then
        (case rateLimit limiter now (ip req) (general st) of
           (g, Some r) \<Rightarrow> ([Helmet, RateLimit General], r, st\<lparr>general := g\<rparr>)
         | (g, None) \<Rightarrow>
             (if auth_path req then
                (case rateLimit authLimiter now (ip req) (auth st) of
                   (a, Some r) \<Rightarrow>
                     ([Helmet, RateLimit General, RateLimit Auth], r,
                      st\<lparr>general := g, auth := a\<rparr>)
                 | (a, None) \<Rightarrow>
                     (case behind_security e c now req (st\<lparr>general := g, auth := a\<rparr>) of
                        (ms, r) \<Rightarrow>
                          (Helmet # RateLimit General # RateLimit Auth # ms, r,
                           st\<lparr>general := g,
                              auth := on_finish authLimiter now (ip req) r a\<rparr>)))
              else
                (case behind_security e c now req (st\<lparr>general := g\<rparr>) of
                   (ms, r) \<Rightarrow> (Helmet # RateLimit General # ms, r, st\<lparr>general := g\<rparr>))))
      else
        (case behind_security e c now req st of (ms, r) \<Rightarrow> (Helmet # ms, r, st)))"
proof -
  have beh: "\<And>s. \<exists>ms out. walk e c now req after_security None s = (ms, out, s) \<and>
      (\<forall>l. RateLimit l \<notin> set ms) \<and>
      behind_security e c now req s =
        (ms, case out of Inl r \<Rightarrow> r
          | Inr err \<Rightarrow> \<lparr>status = (if err = None then 404 else 500), body = Empty\<rparr>)"
  proof -
    fix s
    obtain ms out s' where w: "walk e c now req after_security None s = (ms, out, s')"
      by (cases "walk e c now req after_security None s")
    from behind_security_walk [OF w] w show "\<exists>ms out. walk e c now req after_security None s = (ms, out, s) \<and>
      (\<forall>l. RateLimit l \<notin> set ms) \<and>
      behind_security e c now req s =
        (ms, case out of Inl r \<Rightarrow> r
          | Inr err \<Rightarrow> \<lparr>status = (if err = None then 404 else 500), body = Empty\<rparr>)"
      by auto
  qed
  show ?thesis
  proof (cases "under_api req")
    case False
    from beh [of st] obtain ms out where w: "walk e c now req after_security None st = (ms, out, st)"
      and nl: "\<forall>l. RateLimit l \<notin> set ms"
      and b: "behind_security e c now req st =
        (ms, case out of Inl r \<Rightarrow> r
          | Inr err \<Rightarrow> \<lparr>status = (if err = None then 404 else 500), body = Empty\<rparr>)"
      by blast
    from nl have "\<And>r. fold (finish now req r) ms st = st" by (simp add: fold_finish_frame)
    with False w b show ?thesis
      by (simp add: handle_request_def dispatch_def app_split walk_append walk_security
          split: sum.splits)
  next
    case True
    obtain g rg where G: "rateLimit limiter now (ip req) (general st) = (g, rg)"
      by (cases "rateLimit limiter now (ip req) (general st)")
    show ?thesis
    proof (cases rg)
      case (Some r)
      with True G show ?thesis
        by (simp add: handle_request_def dispatch_def app_split walk_append walk_security
            finish_general)
    next
      case None
      note rg = None
      show ?thesis
      proof (cases "auth_path req")
        case False
        let ?s = "st\<lparr>general := g\<rparr>"
        from beh [of ?s] obtain ms out
          where w: "walk e c now req after_security None ?s = (ms, out, ?s)"
            and nl: "\<forall>l. RateLimit l \<notin> set ms"
            and b: "behind_security e c now req ?s =
              (ms, case out of Inl r \<Rightarrow> r
                | Inr err \<Rightarrow> \<lparr>status = (if err = None then 404 else 500), body = Empty\<rparr>)"
          by blast
        from nl have "\<And>r. fold (finish now req r) ms ?s = ?s" by (simp add: fold_finish_frame)
        with True G rg False w b show ?thesis
          by (simp add: handle_request_def dispatch_def app_split walk_append walk_security
              finish_general split: sum.splits)
      next
        case True
        note ap = True
        obtain a ra where A: "rateLimit authLimiter now (ip req) (auth st) = (a, ra)"
          by (cases "rateLimit authLimiter now (ip req) (auth st)")
        show ?thesis
        proof (cases ra)
          case (Some r)
          from A Some have "\<not> successful r" by (simp add: rejection_not_successful)
          with \<open>under_api req\<close> G rg ap A Some show ?thesis
            by (simp add: handle_request_def dispatch_def app_split walk_append walk_security
                finish_general on_finish_def)
        next
          case None
          let ?s = "st\<lparr>general := g, auth := a\<rparr>"
          from beh [of ?s] obtain ms out
            where w: "walk e c now req after_security None ?s = (ms, out, ?s)"
              and nl: "\<forall>l. RateLimit l \<notin> set ms"
              and b: "behind_security e c now req ?s =
                (ms, case out of Inl r \<Rightarrow> r
                  | Inr err \<Rightarrow> \<lparr>status = (if err = None then 404 else 500), body = Empty\<rparr>)"
            by blast
          from nl have "\<And>r s. fold (finish now req r) ms s = s" by (simp add: fold_finish_frame)
          with \<open>under_api req\<close> G rg ap A None w b show ?thesis
            by (simp add: handle_request_def dispatch_def app_split walk_append walk_security
                finish_general split: sum.splits)
        qed
      qed
    qed
  qed
qed

lemma rateLimit_eq:
  "rateLimit opts now k st =
     (st(k \<mapsto> (current_window opts now st k)\<lparr>count := window_count opts now st k + 1\<rparr>),
      if max' opts < window_count opts now st k + 1
      then Some \<lparr>status = 429, body = Text (message opts)\<rparr> else None)"
  by (simp add: rateLimit_def increment_def window_count_def Let_def)

lemma window_holds_count:
  "window_holds opts t0 n st k \<Longrightarrow> within opts t0 now \<Longrightarrow> window_count opts now st k = n"
  by (auto simp: window_holds_def within_def window_count_def current_window_def
      split: option.splits if_splits)

lemma window_holds_hit:
  assumes "window_holds opts t0 n st k" "within opts t0 now"
  shows "window_holds opts t0 m (st(k \<mapsto> (current_window opts now st k)\<lparr>count := m\<rparr>)) k"
  using assms
  by (auto simp: window_holds_def within_def current_window_def split: option.splits if_splits)

lemma window_holds_other:
  "k' \<noteq> k \<Longrightarrow> window_holds opts t0 n (st(k' \<mapsto> w)) k = window_holds opts t0 n st k"
  by (simp add: window_holds_def)

lemma fresh_window_holds: "fresh opts t0 st k \<Longrightarrow> window_holds opts t0 0 st k"
  by (auto simp: fresh_def window_holds_def split: option.splits)

lemma behind_security_ms:
  assumes "behind_security e c now req st = (ms, r)"
  shows "ms \<noteq> [] \<and> (\<forall>l. RateLimit l \<notin> set ms)"
proof -
  obtain ms' out st' where w: "walk e c now req after_security None st = (ms', out, st')"
    by (cases "walk e c now req after_security None st")
  from behind_security_walk [OF w] assms have ms: "ms' = ms" and nl: "\<forall>l. RateLimit l \<notin> set ms"
    by auto
  have "fst (walk e c now req (logging @ (cors_configuration @ body_parsers @ static_file_serving @
     root_route @ api_routes @ not_found_handler)) None st) \<noteq> []"
    by (simp add: walk_append logging_def handles_errors_def use_slash split: prod.splits sum.splits)
  with w ms have "ms \<noteq> []" by (simp add: after_security_def)
  with nl show ?thesis by blast
qed

lemma last_behind:
  "ms \<noteq> [] \<Longrightarrow> \<forall>l. RateLimit l \<notin> set ms \<Longrightarrow> last (xs @ ms) \<noteq> RateLimit l"
  by (metis last_appendR last_in_set)

lemma general_outcome:
  assumes "handle_request e c now req st = (ms, r, st')"
  shows "general st' =
      (if under_api req then fst (rateLimit limiter now (ip req) (general st)) else general st)"
    and "under_api req \<Longrightarrow> window_count limiter now (general st) (ip req) < 100 \<Longrightarrow>
      proceeds_past General (ms, r)"
    and "under_api req \<Longrightarrow> 100 \<le> window_count limiter now (general st) (ip req) \<Longrightarrow>
      rejected_by General (ms, r)"
proof -
  show "general st' =
      (if under_api req then fst (rateLimit limiter now (ip req) (general st)) else general st)"
    using assms
    by (auto simp: handle_request_cases split: if_splits prod.splits option.splits)
  show "rejected_by General (ms, r)"
    if "under_api req" "100 \<le> window_count limiter now (general st) (ip req)"
    using assms that
    by (auto simp: handle_request_cases rateLimit_eq rejected_by_def limiter_def
        split: if_splits prod.splits option.splits)
  show "proceeds_past General (ms, r)"
    if "under_api req" "window_count limiter now (general st) (ip req) < 100"
  proof (cases "auth_path req")
    case True
    with assms that show ?thesis
      using last_behind [of _ "[Helmet, RateLimit General, RateLimit Auth]" General]
      by (auto simp: handle_request_cases rateLimit_eq proceeds_past_def limiter_def
          dest!: behind_security_ms split: if_splits prod.splits option.splits)
  next
    case False
    with assms that show ?thesis
      using last_behind [of _ "[Helmet, RateLimit General]" General]
      by (auto simp: handle_request_cases rateLimit_eq proceeds_past_def limiter_def
          dest!: behind_security_ms split: if_splits prod.splits option.splits)
  qed
qed

lemma general_step_holds:
  assumes h: "handle_request e c now req st = (ms, r, st')"
    and w: "window_holds limiter t0 n (general st) k"
    and t: "ip req = k \<and> under_api req \<longrightarrow> within limiter t0 now"
  shows "window_holds limiter t0 (if ip req = k \<and> under_api req then n + 1 else n) (general st') k"
proof (cases "under_api req")
  case False
  with general_outcome(1) [OF h] w show ?thesis by simp
next
  case True
  note api = True
  show ?thesis
  proof (cases "ip req = k")
    case True
    with api t have "within limiter t0 now" by simp
    from window_holds_hit [OF w this, of "n + 1"] window_holds_count [OF w this]
      general_outcome(1) [OF h] api True
    show ?thesis by (simp add: rateLimit_eq)
  next
    case False
    with general_outcome(1) [OF h] api w show ?thesis
      by (simp add: rateLimit_eq window_holds_other)
  qed
qed

lemma serve_general:
  assumes "window_holds limiter t0 n (general st) k"
    and "\<forall>tr \<in> set rs. api_request_of k tr \<longrightarrow> within limiter t0 (fst tr)"
    and "i < length rs" and "api_request_of k (rs ! i)"
  shows "(n + length (filter (api_request_of k) (take (Suc i) rs)) \<le> 100 \<longrightarrow>
            proceeds_past General (fst (serve e c rs st) ! i)) \<and>
         (100 < n + length (filter (api_request_of k) (take (Suc i) rs)) \<longrightarrow>
            rejected_by General (fst (serve e c rs st) ! i))"
  using assms
proof (induction rs arbitrary: st n i)
  case Nil
  then show ?case by simp
next
  case (Cons tr rs)
  obtain now req where tr: "tr = (now, req)" by (cases tr)
  obtain ms r st1 where h: "handle_request e c now req st = (ms, r, st1)"
    by (cases "handle_request e c now req st")
  obtain outs st2 where s: "serve e c rs st1 = (outs, st2)"
    by (cases "serve e c rs st1")
  from tr h s have out: "fst (serve e c (tr # rs) st) = (ms, r) # outs" by simp
  from Cons.prems(2) tr have t: "ip req = k \<and> under_api req \<longrightarrow> within limiter t0 now"
    by (simp add: api_request_of_def)
  from general_step_holds [OF h Cons.prems(1) t]
  have w1: "window_holds limiter t0 (if api_request_of k tr then n + 1 else n) (general st1) k"
    by (simp add: api_request_of_def tr)
  show ?case
  proof (cases i)
    case 0
    with Cons.prems(4) tr have a: "ip req = k" "under_api req" by (simp_all add: api_request_of_def)
    with t have "within limiter t0 now" by simp
    from window_holds_count [OF Cons.prems(1) this] a
    have cnt: "window_count limiter now (general st) (ip req) = n" by simp
    from 0 Cons.prems(4) have len: "length (filter (api_request_of k) (take (Suc i) (tr # rs))) = 1"
      by simp
    from general_outcome(2) [OF h a(2)] general_outcome(3) [OF h a(2)] cnt out 0 len
    show ?thesis by auto
  next
    case (Suc j)
    with Cons.prems(3) have j: "j < length rs" by simp
    from Suc Cons.prems(4) have aj: "api_request_of k (rs ! j)" by simp
    from Cons.prems(2) have ts: "\<forall>tr \<in> set rs. api_request_of k tr \<longrightarrow> within limiter t0 (fst tr)"
      by simp
    from Cons.IH [OF w1 ts j aj, of ] s
    have "((if api_request_of k tr then n + 1 else n) +
              length (filter (api_request_of k) (take (Suc j) rs)) \<le> 100 \<longrightarrow>
            proceeds_past General (outs ! j)) \<and>
         (100 < (if api_request_of k tr then n + 1 else n) +
              length (filter (api_request_of k) (take (Suc j) rs)) \<longrightarrow>
            rejected_by General (outs ! j))"
      by simp
    with out Suc show ?thesis by (auto split: if_splits)
  qed
qed

section \<open>Properties of the rate limiters\<close>

text \<open>
  C2. Take any client and any period of fifteen minutes at whose beginning the client
  has no live window in the general limiter, and any sequence of requests in which the
  client's requests under \<^verbatim>\<open>/api/\<close> arrive within that period, interleaved at will with
  other requests. Then each of the client's first 100 requests under \<^verbatim>\<open>/api/\<close> is
  passed on by the limiter, the 100th included, and the 101st and every later one is
  answered by the limiter with status 429 and the configured message.
\<close>

theorem general_limiter_window:
  assumes "fresh limiter t0 (general st) k"
    and "\<forall>tr \<in> set rs. api_request_of k tr \<longrightarrow> within limiter t0 (fst tr)"
    and "i < length rs" and "api_request_of k (rs ! i)"
  shows "(length (filter (api_request_of k) (take (Suc i) rs)) \<le> 100 \<longrightarrow>
            proceeds_past General (fst (serve e c rs st) ! i)) \<and>
         (100 < length (filter (api_request_of k) (take (Suc i) rs)) \<longrightarrow>
            rejected_by General (fst (serve e c rs st) ! i)) \<and>
         options_of General =
           \<lparr>windowMs = 900000, max' = 100,
            message = ''Too many requests from this IP, please try again later.'',
            standardHeaders = Some True, legacyHeaders = Some False,
            skipSuccessfulRequests = False\<rparr>"
proof -
  from assms(1) have "window_holds limiter t0 0 (general st) k"
    by (rule fresh_window_holds)
  from serve_general [OF this assms(2) assms(3) assms(4), of e c]
  show ?thesis by (simp add: limiter_def)
qed

lemma api_health: "under_api (request_to m ''/api/health'')"
  by (rule under_api_prefix [of _ "''health''"]) (simp add: request_to_def)

theorem general_limiter_window_witness:
  "proceeds_past General
     (fst (serve production_env (answering 200)
        (replicate 101 (0, request_to ''GET'' ''/api/health'')) no_hits) ! 99) \<and>
   rejected_by General
     (fst (serve production_env (answering 200)
        (replicate 101 (0, request_to ''GET'' ''/api/health'')) no_hits) ! 100)"
proof -
  let ?tr = "(0 :: nat, request_to ''GET'' ''/api/health'')"
  let ?k = "''203.0.113.7''"
  have f: "fresh limiter 0 (general no_hits) ?k"
    by (simp add: fresh_def no_hits_def)
  have a: "api_request_of ?k ?tr"
    by (simp add: api_request_of_def api_health) (simp add: request_to_def)
  have t: "\<forall>tr \<in> set (replicate 101 ?tr). api_request_of ?k tr \<longrightarrow> within limiter 0 (fst tr)"
    by (simp add: within_def limiter_def)
  have n99: "length (filter (api_request_of ?k) (take (Suc 99) (replicate 101 ?tr))) = 100"
    using a by simp
  have n100: "length (filter (api_request_of ?k) (take (Suc 100) (replicate 101 ?tr))) = 101"
    using a by simp
  from general_limiter_window [OF f t, of 99 production_env "answering 200"] a n99
  have "proceeds_past General
     (fst (serve production_env (answering 200) (replicate 101 ?tr) no_hits) ! 99)"
    by simp
  moreover from general_limiter_window [OF f t, of 100 production_env "answering 200"] a n100
  have "rejected_by General
     (fst (serve production_env (answering 200) (replicate 101 ?tr) no_hits) ! 100)"
    by simp
  ultimately show ?thesis by blast
qed

lemma window_count_hit:
  "0 < windowMs opts \<Longrightarrow>
   window_count opts now (st(k \<mapsto> (current_window opts now st k)\<lparr>count := m\<rparr>)) k = m"
  by (auto simp: window_count_def current_window_def split: option.splits)

lemma root_not_under_api: "path req = ''/'' \<Longrightarrow> \<not> under_api req"
  by (simp add: under_api_def use_matches_iff mounts_lower to_lower_chars)

lemma general_hit:
  assumes "handle_request e c now req st = (ms, r, st')" "under_api req"
  shows "RateLimit General \<in> set ms"
    and "window_count limiter now (general st') (ip req) =
         window_count limiter now (general st) (ip req) + 1"
proof -
  from assms show "RateLimit General \<in> set ms"
    by (auto simp: handle_request_cases split: if_splits prod.splits option.splits)
  have "0 < windowMs limiter" by (simp add: limiter_def)
  from general_outcome(1) [OF assms(1)] assms(2) window_count_hit [OF this]
  show "window_count limiter now (general st') (ip req) =
         window_count limiter now (general st) (ip req) + 1"
    by (simp add: rateLimit_eq)
qed

lemma root_unlimited:
  assumes "handle_request e c now req st = (ms, r, st')" "\<not> under_api req"
  shows "(\<forall>l. RateLimit l \<notin> set ms) \<and> st' = st"
  using assms
  by (auto simp: handle_request_cases split: prod.splits dest!: behind_security_ms)

text \<open>
  C9. The general limiter runs for every request whose path lies under \<^verbatim>\<open>/api/\<close>, and
  such a request adds one to the count of its client's window; \<^verbatim>\<open>/api/health\<close> is such a
  path. For a request to the root path no limiter runs and the stores of both limiters
  are left as they were.
\<close>

theorem limiter_coverage:
  assumes "handle_request e c now req st = (ms, r, st')"
  shows "(\<forall>rest. path req = ''/api/'' @ rest \<longrightarrow>
            RateLimit General \<in> set ms \<and>
            window_count limiter now (general st') (ip req) =
              window_count limiter now (general st) (ip req) + 1) \<and>
         (path req = ''/api/health'' \<longrightarrow>
            RateLimit General \<in> set ms \<and>
            window_count limiter now (general st') (ip req) =
              window_count limiter now (general st) (ip req) + 1) \<and>
         (path req = ''/'' \<longrightarrow> (\<forall>l. RateLimit l \<notin> set ms) \<and> st' = st)"
proof -
  have "RateLimit General \<in> set ms \<and>
      window_count limiter now (general st') (ip req) =
        window_count limiter now (general st) (ip req) + 1"
    if "path req = ''/api/'' @ rest" for rest
    using general_hit [OF assms under_api_prefix [OF that]] by simp
  moreover from this [of "''health''"]
  have "path req = ''/api/health'' \<longrightarrow>
      RateLimit General \<in> set ms \<and>
      window_count limiter now (general st') (ip req) =
        window_count limiter now (general st) (ip req) + 1"
    by simp
  moreover have "path req = ''/'' \<longrightarrow> (\<forall>l. RateLimit l \<notin> set ms) \<and> st' = st"
    using root_unlimited [OF assms] root_not_under_api by blast
  ultimately show ?thesis by blast
qed

theorem limiter_coverage_witness:
  "RateLimit General \<in> set (fst (handle_request production_env (answering 200) 0
      (request_to ''GET'' ''/api/health'') no_hits)) \<and>
   window_count limiter 0 (general (snd (snd (handle_request production_env (answering 200) 0
      (request_to ''GET'' ''/api/health'') no_hits)))) ''203.0.113.7'' = 1 \<and>
   snd (snd (handle_request production_env (answering 200) 0 (request_to ''GET'' ''/'') no_hits))
     = no_hits"
proof -
  let ?h = "handle_request production_env (answering 200) 0 (request_to ''GET'' ''/api/health'')
    no_hits"
  let ?r = "handle_request production_env (answering 200) 0 (request_to ''GET'' ''/'') no_hits"
  have h: "?h = (fst ?h, fst (snd ?h), snd (snd ?h))" by simp
  have r: "?r = (fst ?r, fst (snd ?r), snd (snd ?r))" by simp
  have z: "window_count limiter 0 (general no_hits) ''203.0.113.7'' = 0"
    by (simp add: window_count_def current_window_def no_hits_def)
  from limiter_coverage [OF h] z
  have "RateLimit General \<in> set (fst ?h) \<and>
      window_count limiter 0 (general (snd (snd ?h))) ''203.0.113.7'' = 1"
    by (simp add: request_to_def)
  moreover from limiter_coverage [OF r] have "snd (snd ?r) = no_hits"
    by (simp add: request_to_def)
  ultimately show ?thesis by blast
qed


lemma auth_store:
  assumes "handle_request e c now req st = (ms, r, st')"
  shows "auth st' =
     (if auth_path req \<and> window_count limiter now (general st) (ip req) < 100 then
        (if 5 \<le> window_count authLimiter now (auth st) (ip req) \<or> \<not> successful r
         then (auth st)(ip req \<mapsto> (current_window authLimiter now (auth st) (ip req))
                 \<lparr>count := window_count authLimiter now (auth st) (ip req) + 1\<rparr>)
         else (auth st)(ip req \<mapsto> (current_window authLimiter now (auth st) (ip req))
                 \<lparr>count := window_count authLimiter now (auth st) (ip req)\<rparr>))
      else auth st)"
proof -
  have w: "0 < windowMs authLimiter" by (simp add: authLimiter_def)
  have cw: "current_window authLimiter now
      ((auth st)(ip req \<mapsto> (current_window authLimiter now (auth st) (ip req))\<lparr>count := m\<rparr>))
      (ip req) = (current_window authLimiter now (auth st) (ip req))\<lparr>count := m\<rparr>" for m
    by (auto simp: current_window_def authLimiter_def split: option.splits)
  have api: "auth_path req \<Longrightarrow> under_api req" by (rule auth_path_under_api)
  show ?thesis
    using assms api
    by (auto simp: handle_request_cases rateLimit_eq limiter_def authLimiter_def on_finish_def
        decrement_def cw [unfolded authLimiter_def, simplified] successful_def
        split: if_splits prod.splits)
qed

lemma auth_outcome:
  assumes h: "handle_request e c now req st = (ms, r, st')" and a: "auth_path req"
  shows "100 \<le> window_count limiter now (general st) (ip req) \<Longrightarrow>
           rejected_by General (ms, r) \<and> RateLimit Auth \<notin> set ms"
    and "window_count limiter now (general st) (ip req) < 100 \<Longrightarrow>
         5 \<le> window_count authLimiter now (auth st) (ip req) \<Longrightarrow>
           rejected_by Auth (ms, r) \<and> \<not> successful r"
    and "window_count limiter now (general st) (ip req) < 100 \<Longrightarrow>
         window_count authLimiter now (auth st) (ip req) < 5 \<Longrightarrow>
           proceeds_past Auth (ms, r)"
proof -
  from a have api: "under_api req" by (rule auth_path_under_api)
  show "rejected_by General (ms, r) \<and> RateLimit Auth \<notin> set ms"
    if "100 \<le> window_count limiter now (general st) (ip req)"
    using h api that
    by (auto simp: handle_request_cases rateLimit_eq rejected_by_def limiter_def
        split: if_splits prod.splits)
  show "rejected_by Auth (ms, r) \<and> \<not> successful r"
    if "window_count limiter now (general st) (ip req) < 100"
      "5 \<le> window_count authLimiter now (auth st) (ip req)"
    using h api a that
    by (auto simp: handle_request_cases rateLimit_eq rejected_by_def limiter_def authLimiter_def
        successful_def split: if_splits prod.splits)
  show "proceeds_past Auth (ms, r)"
    if "window_count limiter now (general st) (ip req) < 100"
      "window_count authLimiter now (auth st) (ip req) < 5"
    using h api a that
      last_behind [of _ "[Helmet, RateLimit General, RateLimit Auth]" Auth]
    by (auto simp: handle_request_cases rateLimit_eq proceeds_past_def limiter_def authLimiter_def
        dest!: behind_security_ms split: if_splits prod.splits)
qed

lemma auth_ran:
  assumes h: "handle_request e c now req st = (ms, r, st')"
  shows "RateLimit Auth \<in> set ms \<longleftrightarrow>
     auth_path req \<and> window_count limiter now (general st) (ip req) < 100"
proof -
  have api: "auth_path req \<Longrightarrow> under_api req" by (rule auth_path_under_api)
  show ?thesis
    using h api
    by (auto simp: handle_request_cases rateLimit_eq limiter_def
        dest!: behind_security_ms split: if_splits prod.splits)
qed

lemma consumed_iff:
  assumes h: "handle_request e c now req st = (ms, r, st')"
  shows "consumed (ms, r) \<longleftrightarrow>
     auth_path req \<and> window_count limiter now (general st) (ip req) < 100 \<and>
     (5 \<le> window_count authLimiter now (auth st) (ip req) \<or> \<not> successful r)"
proof (cases "auth_path req \<and> window_count limiter now (general st) (ip req) < 100 \<and>
    5 \<le> window_count authLimiter now (auth st) (ip req)")
  case True
  with auth_outcome(2) [OF h] auth_ran [OF h] show ?thesis
    by (auto simp: consumed_def)
next
  case False
  with auth_ran [OF h] show ?thesis by (auto simp: consumed_def)
qed

lemma auth_step_holds:
  assumes h: "handle_request e c now req st = (ms, r, st')"
    and w: "window_holds authLimiter t0 n (auth st) k"
    and t: "ip req = k \<and> auth_path req \<longrightarrow> within authLimiter t0 now"
  shows "window_holds authLimiter t0 (if ip req = k \<and> consumed (ms, r) then n + 1 else n)
     (auth st') k"
proof (cases "auth_path req \<and> window_count limiter now (general st) (ip req) < 100")
  case False
  with auth_store [OF h] consumed_iff [OF h] w show ?thesis by auto
next
  case True
  note pass = True
  show ?thesis
  proof (cases "ip req = k")
    case False
    with auth_store [OF h] w show ?thesis by (auto simp: window_holds_other)
  next
    case True
    with pass t have "within authLimiter t0 now" by simp
    from window_holds_hit [OF w this] window_holds_count [OF w this]
      auth_store [OF h] consumed_iff [OF h] pass True
    show ?thesis by auto
  qed
qed

lemma serve_auth:
  assumes "window_holds authLimiter t0 n (auth st) k"
    and "\<forall>tr \<in> set rs. auth_attempt_of k tr \<longrightarrow> within authLimiter t0 (fst tr)"
    and "i < length rs" and "auth_attempt_of k (rs ! i)"
  shows "(5 \<le> n + spent k (take i (zip rs (fst (serve e c rs st)))) \<longrightarrow>
            rejected_by Auth (fst (serve e c rs st) ! i) \<or>
            rejected_by General (fst (serve e c rs st) ! i)) \<and>
         (n + spent k (take i (zip rs (fst (serve e c rs st)))) < 5 \<longrightarrow>
            proceeds_past Auth (fst (serve e c rs st) ! i) \<or>
            rejected_by General (fst (serve e c rs st) ! i))"
  using assms
proof (induction rs arbitrary: st n i)
  case Nil
  then show ?case by simp
next
  case (Cons tr rs)
  obtain now req where tr: "tr = (now, req)" by (cases tr)
  obtain ms r st1 where h: "handle_request e c now req st = (ms, r, st1)"
    by (cases "handle_request e c now req st")
  obtain outs st2 where s: "serve e c rs st1 = (outs, st2)"
    by (cases "serve e c rs st1")
  from tr h s have out: "fst (serve e c (tr # rs) st) = (ms, r) # outs" by simp
  from Cons.prems(2) tr have t: "ip req = k \<and> auth_path req \<longrightarrow> within authLimiter t0 now"
    by (simp add: auth_attempt_of_def)
  from auth_step_holds [OF h Cons.prems(1) t]
  have w1: "window_holds authLimiter t0 (if ip req = k \<and> consumed (ms, r) then n + 1 else n)
     (auth st1) k" .
  show ?case
  proof (cases i)
    case 0
    with Cons.prems(4) tr have a: "ip req = k" "auth_path req"
      by (simp_all add: auth_attempt_of_def)
    with t have "within authLimiter t0 now" by simp
    from window_holds_count [OF Cons.prems(1) this] a
    have cnt: "window_count authLimiter now (auth st) (ip req) = n" by simp
    have "rejected_by General (ms, r) \<or> window_count limiter now (general st) (ip req) < 100"
      using auth_outcome(1) [OF h a(2)] by fastforce
    with auth_outcome(2) [OF h a(2)] auth_outcome(3) [OF h a(2)] cnt out 0
    show ?thesis by (auto simp: spent_def)
  next
    case (Suc j)
    with Cons.prems(3) have j: "j < length rs" by simp
    from Suc Cons.prems(4) have aj: "auth_attempt_of k (rs ! j)" by simp
    from Cons.prems(2)
    have ts: "\<forall>tr \<in> set rs. auth_attempt_of k tr \<longrightarrow> within authLimiter t0 (fst tr)"
      by simp
    have sp: "spent k (take i (zip (tr # rs) ((ms, r) # outs))) =
        (if ip req = k \<and> consumed (ms, r) then 1 else 0) + spent k (take j (zip rs outs))"
      using Suc tr by (simp add: spent_def)
    from Cons.IH [OF w1 ts j aj] s
    have "(5 \<le> (if ip req = k \<and> consumed (ms, r) then n + 1 else n) +
              spent k (take j (zip rs outs)) \<longrightarrow>
            rejected_by Auth (outs ! j) \<or> rejected_by General (outs ! j)) \<and>
         ((if ip req = k \<and> consumed (ms, r) then n + 1 else n) +
              spent k (take j (zip rs outs)) < 5 \<longrightarrow>
            proceeds_past Auth (outs ! j) \<or> rejected_by General (outs ! j))"
      by simp
    with out Suc sp show ?thesis by (auto split: if_splits)
  qed
qed

lemma success_keeps_quota:
  assumes h: "handle_request e c now req st = (ms, r, st')" and s: "successful r"
  shows "window_count authLimiter now (auth st') k = window_count authLimiter now (auth st) k"
proof -
  have w: "0 < windowMs authLimiter" by (simp add: authLimiter_def)
  from auth_store [OF h] s window_count_hit [OF w, of now "auth st" "ip req"]
    auth_outcome(2) [OF h]
  show ?thesis
    by (auto simp: window_count_def current_window_def split: if_splits)
qed

lemma login_attempt_paths: "auth_path login_attempt" "under_api login_attempt"
proof -
  show "auth_path login_attempt"
    by (simp add: auth_path_def login_attempt_def request_to_def use_matches_iff mounts_lower
        to_lower_chars)
  then show "under_api login_attempt" by (rule auth_path_under_api)
qed

lemma login_behind_security:
  "behind_security e (answering code) now login_attempt st =
     ([Morgan, Cors, JsonParser, UrlencodedParser, Router ''./routes/auth''],
      \<lparr>status = code, body = Json [(''success'', JBool (code < 400))]\<rparr>)"
  by (simp add: behind_security_def after_security_def logging_def cors_configuration_def
      body_parsers_def static_file_serving_def root_route_def api_routes_def
      not_found_handler_def handles_errors_def use_slash login_attempt_def request_to_def
      answering_def cors_def corsOptions_origin_def truthy_def use_matches_def strip_slash_def
      route_matches_def to_lower_chars)

lemma first_attempt:
  "handle_request e (answering 401) 0 login_attempt no_hits =
    ([Helmet, RateLimit General, RateLimit Auth, Morgan, Cors, JsonParser, UrlencodedParser,
      Router ''./routes/auth''],
     \<lparr>status = 401, body = Json [(''success'', JBool False)]\<rparr>,
     \<lparr>general = [''203.0.113.7'' \<mapsto> \<lparr>start = 0, count = 1\<rparr>],
      auth = [''203.0.113.7'' \<mapsto> \<lparr>start = 0, count = 1\<rparr>]\<rparr>)"
  by (simp add: handle_request_cases login_attempt_paths login_behind_security rateLimit_eq
      window_count_def current_window_def no_hits_def limiter_def authLimiter_def on_finish_def
      successful_def)
   (simp add: login_attempt_def request_to_def)

lemma later_attempt:
  "g < 100 \<Longrightarrow> a < 5 \<Longrightarrow>
   handle_request e (answering 401) 0 login_attempt
     \<lparr>general = [''203.0.113.7'' \<mapsto> \<lparr>start = 0, count = g\<rparr>],
      auth = [''203.0.113.7'' \<mapsto> \<lparr>start = 0, count = a\<rparr>]\<rparr> =
    ([Helmet, RateLimit General, RateLimit Auth, Morgan, Cors, JsonParser, UrlencodedParser,
      Router ''./routes/auth''],
     \<lparr>status = 401, body = Json [(''success'', JBool False)]\<rparr>,
     \<lparr>general = [''203.0.113.7'' \<mapsto> \<lparr>start = 0, count = g + 1\<rparr>],
      auth = [''203.0.113.7'' \<mapsto> \<lparr>start = 0, count = a + 1\<rparr>]\<rparr>)"
  by (simp add: handle_request_cases login_attempt_paths login_behind_security rateLimit_eq
      window_count_def current_window_def limiter_def authLimiter_def on_finish_def
      successful_def)
   (simp add: login_attempt_def request_to_def)

lemma sixth_attempt:
  "g < 100 \<Longrightarrow> 5 \<le> a \<Longrightarrow>
   handle_request e c 0 login_attempt
     \<lparr>general = [''203.0.113.7'' \<mapsto> \<lparr>start = 0, count = g\<rparr>],
      auth = [''203.0.113.7'' \<mapsto> \<lparr>start = 0, count = a\<rparr>]\<rparr> =
    ([Helmet, RateLimit General, RateLimit Auth],
     \<lparr>status = 429, body = Text ''Too many login attempts, please try again later.''\<rparr>,
     \<lparr>general = [''203.0.113.7'' \<mapsto> \<lparr>start = 0, count = g + 1\<rparr>],
      auth = [''203.0.113.7'' \<mapsto> \<lparr>start = 0, count = a + 1\<rparr>]\<rparr>)"
  by (simp add: handle_request_cases login_attempt_paths rateLimit_eq
      window_count_def current_window_def limiter_def authLimiter_def)
   (simp add: login_attempt_def request_to_def)

lemma replicate_6: "replicate 6 x = [x, x, x, x, x, x]"
  by (simp add: numeral_eq_Suc)

lemma replicate_5: "replicate 5 x = [x, x, x, x, x]"
  by (simp add: numeral_eq_Suc)

lemma six_attempts:
  "fst (serve e (answering 401) (replicate 6 (0, login_attempt)) no_hits) =
     replicate 5
       ([Helmet, RateLimit General, RateLimit Auth, Morgan, Cors, JsonParser, UrlencodedParser,
         Router ''./routes/auth''],
        \<lparr>status = 401, body = Json [(''success'', JBool False)]\<rparr>) @
     [([Helmet, RateLimit General, RateLimit Auth],
       \<lparr>status = 429, body = Text ''Too many login attempts, please try again later.''\<rparr>)]"
  by (simp add: replicate_6 replicate_5 first_attempt later_attempt sixth_attempt)

text \<open>
  C3. The auth limiter is created with a window of fifteen minutes, a maximum of 5 and
  the exemption of successes. A request whose response is successful leaves the count of
  every client's window as it was and consumes no quota. Take any client and any period
  of fifteen minutes at whose beginning the client has no live window in the auth
  limiter, and any sequence of requests in which the client's attempts on the login and
  registration endpoints arrive within that period. An attempt consumes quota when the
  auth limiter saw it and the response was not successful. Once five attempts have
  consumed quota, every further attempt is rejected with status 429 before any handler
  runs, whatever the handler would have answered: by the auth limiter, unless the general
  limiter in front of it has already rejected the request. Before that, the auth limiter
  lets the client's attempts proceed.
\<close>

theorem auth_limiter_quota:
  assumes "fresh authLimiter t0 (auth st) k"
    and "\<forall>tr \<in> set rs. auth_attempt_of k tr \<longrightarrow> within authLimiter t0 (fst tr)"
    and "i < length rs" and "auth_attempt_of k (rs ! i)"
  shows "(5 \<le> spent k (take i (zip rs (fst (serve e c rs st)))) \<longrightarrow>
            rejected_by Auth (fst (serve e c rs st) ! i) \<or>
            rejected_by General (fst (serve e c rs st) ! i)) \<and>
         (spent k (take i (zip rs (fst (serve e c rs st)))) < 5 \<longrightarrow>
            proceeds_past Auth (fst (serve e c rs st) ! i) \<or>
            rejected_by General (fst (serve e c rs st) ! i)) \<and>
         (\<forall>now req s ms r s' k'.
            handle_request e c now req s = (ms, r, s') \<and> successful r \<longrightarrow>
              \<not> consumed (ms, r) \<and>
              window_count authLimiter now (auth s') k' = window_count authLimiter now (auth s) k') \<and>
         options_of Auth =
           \<lparr>windowMs = 900000, max' = 5,
            message = ''Too many login attempts, please try again later.'',
            standardHeaders = None, legacyHeaders = None,
            skipSuccessfulRequests = True\<rparr>"
proof -
  from assms(1) have "window_holds authLimiter t0 0 (auth st) k"
    by (rule fresh_window_holds)
  from serve_auth [OF this assms(2) assms(3) assms(4), of e c]
  have seq: "(5 \<le> spent k (take i (zip rs (fst (serve e c rs st)))) \<longrightarrow>
            rejected_by Auth (fst (serve e c rs st) ! i) \<or>
            rejected_by General (fst (serve e c rs st) ! i)) \<and>
         (spent k (take i (zip rs (fst (serve e c rs st)))) < 5 \<longrightarrow>
            proceeds_past Auth (fst (serve e c rs st) ! i) \<or>
            rejected_by General (fst (serve e c rs st) ! i))"
    by simp
  have one: "\<not> consumed (ms, r) \<and>
      window_count authLimiter now (auth s') k' = window_count authLimiter now (auth s) k'"
    if "handle_request e c now req s = (ms, r, s')" "successful r" for now req s ms r s' k'
    using success_keeps_quota [OF that] that(2) by (simp add: consumed_def)
  have opts: "options_of Auth =
           \<lparr>windowMs = 900000, max' = 5,
            message = ''Too many login attempts, please try again later.'',
            standardHeaders = None, legacyHeaders = None,
            skipSuccessfulRequests = True\<rparr>"
    by (simp add: authLimiter_def)
  from seq one opts show ?thesis by blast
qed

theorem auth_limiter_quota_witness:
  "spent ''203.0.113.7''
     (take 5 (zip (replicate 6 (0, login_attempt))
        (fst (serve production_env (answering 401) (replicate 6 (0, login_attempt)) no_hits)))) = 5 \<and>
   rejected_by Auth
     (fst (serve production_env (answering 401) (replicate 6 (0, login_attempt)) no_hits) ! 5)"
proof -
  let ?k = "''203.0.113.7''"
  let ?rs = "replicate 6 (0 :: nat, login_attempt)"
  let ?outs = "fst (serve production_env (answering 401) ?rs no_hits)"
  have f: "fresh authLimiter 0 (auth no_hits) ?k"
    by (simp add: fresh_def no_hits_def)
  have a: "auth_attempt_of ?k (0, login_attempt)"
    by (simp add: auth_attempt_of_def login_attempt_paths) (simp add: login_attempt_def request_to_def)
  have t: "\<forall>tr \<in> set ?rs. auth_attempt_of ?k tr \<longrightarrow> within authLimiter 0 (fst tr)"
    by (simp add: within_def authLimiter_def)
  have sp: "spent ?k (take 5 (zip ?rs ?outs)) = 5"
    by (simp only: six_attempts)
       (simp add: replicate_6 replicate_5 spent_def consumed_def successful_def
          login_attempt_def request_to_def)
  have g: "\<not> rejected_by General (?outs ! 5)"
    by (simp only: six_attempts) (simp add: replicate_5 rejected_by_def)
  from auth_limiter_quota [OF f t, of 5 production_env "answering 401"] a sp g
  have "rejected_by Auth (?outs ! 5)" by simp
  with sp show ?thesis by blast
qed

lemma filter_length_mono:
  "(\<And>x. P x \<Longrightarrow> Q x) \<Longrightarrow> length (filter P xs) \<le> length (filter Q xs)"
  by (induction xs) auto

text \<open>
  The claim as written counts every request to the login and registration endpoints
  in both limiters. A request that the general limiter rejects never reaches the auth
  limiter: here the client has used up the general limit, the attempt is answered with
  status 429 by the general limiter, and the store of the auth limiter stays empty.
\<close>

theorem auth_attempt_uncounted_counterexample:
  "auth_path login_attempt \<and>
   handle_request production_env (answering 401) 1 login_attempt exhausted_general =
     ([Helmet, RateLimit General],
      \<lparr>status = 429, body = Text ''Too many requests from this IP, please try again later.''\<rparr>,
      \<lparr>general = [''203.0.113.7'' \<mapsto> \<lparr>start = 0, count = 101\<rparr>], auth = Map.empty\<rparr>)"
  by (simp add: handle_request_cases login_attempt_paths rateLimit_eq window_count_def
      current_window_def limiter_def exhausted_general_def)
   (simp add: login_attempt_def request_to_def)

text \<open>
  C10, as the code has it. Every request to the login or registration endpoint runs
  through the general limiter and adds one to the count of its client's window there,
  whatever its outcome. When the general limit is exceeded the general limiter rejects
  the request and the auth limiter neither runs nor counts it. Otherwise the auth limiter
  runs: it rejects the request when its own limit is exceeded, lets it proceed when not,
  and its count grows by one exactly when the request was rejected by it or the response
  was not successful. Consequently, when a client sends more than 100 requests to these
  endpoints within one window of the general limiter, every one after the 100th is
  rejected by the general limiter, whatever the responses to the earlier ones were.
\<close>

theorem auth_requests_two_limiters:
  assumes "handle_request e c now req st = (ms, r, st')" and "auth_path req"
  shows "RateLimit General \<in> set ms \<and>
         window_count limiter now (general st') (ip req) =
           window_count limiter now (general st) (ip req) + 1 \<and>
         (100 \<le> window_count limiter now (general st) (ip req) \<longrightarrow>
            rejected_by General (ms, r) \<and> RateLimit Auth \<notin> set ms \<and> auth st' = auth st) \<and>
         (window_count limiter now (general st) (ip req) < 100 \<longrightarrow>
            RateLimit Auth \<in> set ms \<and>
            window_count authLimiter now (auth st') (ip req) =
              window_count authLimiter now (auth st) (ip req) +
              (if 5 \<le> window_count authLimiter now (auth st) (ip req) \<or> \<not> successful r
               then 1 else 0) \<and>
            (5 \<le> window_count authLimiter now (auth st) (ip req) \<longrightarrow> rejected_by Auth (ms, r)) \<and>
            (window_count authLimiter now (auth st) (ip req) < 5 \<longrightarrow> proceeds_past Auth (ms, r))) \<and>
         (\<forall>t0 s0 k rs i.
            fresh limiter t0 (general s0) k \<and>
            (\<forall>tr \<in> set rs. api_request_of k tr \<longrightarrow> within limiter t0 (fst tr)) \<and>
            i < length rs \<and> auth_attempt_of k (rs ! i) \<and>
            100 < length (filter (auth_attempt_of k) (take (Suc i) rs)) \<longrightarrow>
            rejected_by General (fst (serve e c rs s0) ! i))"
proof -
  note h = assms(1) and a = assms(2)
  from a have api: "under_api req" by (rule auth_path_under_api)
  have w: "0 < windowMs authLimiter" by (simp add: authLimiter_def)
  have g: "RateLimit General \<in> set ms \<and>
      window_count limiter now (general st') (ip req) =
        window_count limiter now (general st) (ip req) + 1"
    using general_hit [OF h api] by simp
  have rej: "rejected_by General (ms, r) \<and> RateLimit Auth \<notin> set ms \<and> auth st' = auth st"
    if "100 \<le> window_count limiter now (general st) (ip req)"
    using auth_outcome(1) [OF h a that] auth_store [OF h] that by simp
  have pass: "RateLimit Auth \<in> set ms \<and>
      window_count authLimiter now (auth st') (ip req) =
        window_count authLimiter now (auth st) (ip req) +
        (if 5 \<le> window_count authLimiter now (auth st) (ip req) \<or> \<not> successful r
         then 1 else 0) \<and>
      (5 \<le> window_count authLimiter now (auth st) (ip req) \<longrightarrow> rejected_by Auth (ms, r)) \<and>
      (window_count authLimiter now (auth st) (ip req) < 5 \<longrightarrow> proceeds_past Auth (ms, r))"
    if "window_count limiter now (general st) (ip req) < 100"
    using auth_ran [OF h] auth_store [OF h] a that window_count_hit [OF w, of now "auth st" "ip req"]
      auth_outcome(2) [OF h a that] auth_outcome(3) [OF h a that]
    by auto
  have seq: "rejected_by General (fst (serve e c rs s0) ! i)"
    if "fresh limiter t0 (general s0) k"
      "\<forall>tr \<in> set rs. api_request_of k tr \<longrightarrow> within limiter t0 (fst tr)"
      "i < length rs" "auth_attempt_of k (rs ! i)"
      "100 < length (filter (auth_attempt_of k) (take (Suc i) rs))"
    for t0 s0 k rs i
  proof -
    have sub: "auth_attempt_of k tr \<Longrightarrow> api_request_of k tr" for tr
      by (simp add: auth_attempt_of_def api_request_of_def auth_path_under_api)
    from filter_length_mono [of "auth_attempt_of k" "api_request_of k" "take (Suc i) rs"] sub that(5)
    have n: "100 < length (filter (api_request_of k) (take (Suc i) rs))" by fastforce
    from that(1) have "window_holds limiter t0 0 (general s0) k" by (rule fresh_window_holds)
    from serve_general [OF this that(2) that(3) sub [OF that(4)], of e c] n
    show ?thesis by simp
  qed
  from g rej pass seq show ?thesis by blast
qed

theorem auth_requests_two_limiters_witness:
  "auth_path login_attempt \<and>
   rejected_by General
     (fst (serve production_env (answering 200) (replicate 101 (0, login_attempt)) no_hits) ! 100)"
proof -
  let ?k = "''203.0.113.7''"
  let ?rs = "replicate 101 (0 :: nat, login_attempt)"
  let ?h = "handle_request production_env (answering 200) 0 login_attempt no_hits"
  have h: "?h = (fst ?h, fst (snd ?h), snd (snd ?h))" by simp
  have f: "fresh limiter 0 (general no_hits) ?k"
    by (simp add: fresh_def no_hits_def)
  have a: "auth_attempt_of ?k (0, login_attempt)"
    by (simp add: auth_attempt_of_def login_attempt_paths) (simp add: login_attempt_def request_to_def)
  have t: "\<forall>tr \<in> set ?rs. api_request_of ?k tr \<longrightarrow> within limiter 0 (fst tr)"
    by (simp add: within_def limiter_def)
  have n: "100 < length (filter (auth_attempt_of ?k) (take (Suc 100) ?rs))"
    using a by simp
  from auth_requests_two_limiters [OF h login_attempt_paths(1)]
  have "\<forall>t0 s0 k rs i.
            fresh limiter t0 (general s0) k \<and>
            (\<forall>tr \<in> set rs. api_request_of k tr \<longrightarrow> within limiter t0 (fst tr)) \<and>
            i < length rs \<and> auth_attempt_of k (rs ! i) \<and>
            100 < length (filter (auth_attempt_of k) (take (Suc i) rs)) \<longrightarrow>
            rejected_by General (fst (serve production_env (answering 200) rs s0) ! i)"
    by blast
  from this [rule_format, of 0 no_hits ?k ?rs 100] f t a n
  have "rejected_by General (fst (serve production_env (answering 200) ?rs no_hits) ! 100)"
    by simp
  with login_attempt_paths(1) show ?thesis by blast
qed

section \<open>Properties of the routes and the fallback\<close>

lemmas after_security_layers = behind_security_def after_security_def logging_def
  cors_configuration_def body_parsers_def static_file_serving_def root_route_def api_routes_def
  not_found_handler_def handles_errors_def use_slash

lemma passes_cors_handle:
  "passes_cors e req \<Longrightarrow> handle e c now req err Cors st = (Next, st)"
  by (auto simp: passes_cors_def split: sum.splits)

lemma not_found_behind_security:
  assumes "passes_cors e req" "passes_body_parsers c req" "matches_no_route req"
  shows "behind_security e c now req st =
     ([Morgan, Cors, JsonParser, UrlencodedParser, NotFound],
      \<lparr>status = 404, body = Json (not_found_body req)\<rparr>)"
  using assms(2) assms(3) passes_cors_handle [OF assms(1)]
  by (simp add: after_security_layers passes_body_parsers_def matches_no_route_def
      del: handle.simps(4))

lemma root_behind_security:
  assumes "passes_cors e req" "passes_body_parsers c req" "path req = ''/''"
    "method req = ''GET'' \<or> method req = ''HEAD''"
  shows "behind_security e c now req st =
     ([Morgan, Cors, JsonParser, UrlencodedParser, RootRoute],
      \<lparr>status = 200, body = Json (root_body now)\<rparr>)"
  using assms(2) assms(3) assms(4) passes_cors_handle [OF assms(1)]
  by (auto simp: after_security_layers passes_body_parsers_def use_matches_def strip_slash_def
      route_matches_def to_lower_chars simp del: handle.simps(4))

lemma health_behind_security:
  assumes "passes_cors e req" "passes_body_parsers c req" "path req = ''/api/health''"
    "method req = ''GET'' \<or> method req = ''HEAD''"
  shows "behind_security e c now req st =
     ([Morgan, Cors, JsonParser, UrlencodedParser, HealthRoute],
      \<lparr>status = 200, body = Json (health_body e now)\<rparr>)"
  using assms(2) assms(3) assms(4) passes_cors_handle [OF assms(1)]
  by (auto simp: after_security_layers passes_body_parsers_def use_matches_def strip_slash_def
      route_matches_def to_lower_chars simp del: handle.simps(4))

lemma admitted_response:
  assumes "passes_limiters now req st" and "\<And>s. behind_security e c now req s = (bms, br)"
  shows "fst (snd (handle_request e c now req st)) = br \<and>
         (\<exists>pre. fst (handle_request e c now req st) = pre @ bms)"
  using assms
  by (auto simp: handle_request_cases rateLimit_eq passes_limiters_def)

lemma no_hits_passes: "passes_limiters now req no_hits"
  by (simp add: passes_limiters_def window_count_def current_window_def no_hits_def
      limiter_def authLimiter_def)

lemma no_origin_passes_cors:
  "origin req = None \<Longrightarrow> method req \<noteq> ''OPTIONS'' \<Longrightarrow> passes_cors e req"
  by (simp add: passes_cors_def cors_def corsOptions_origin_def truthy_def)

lemma answering_passes: "passes_body_parsers (answering code) req"
  by (simp add: passes_body_parsers_def answering_def)

lemma nowhere_no_route: "matches_no_route (request_to m ''/nowhere'')"
  by (simp add: matches_no_route_def static_file_serving_def root_route_def api_routes_def
      request_to_def use_matches_def route_matches_def strip_slash_def to_lower_chars)

lemma nowhere_not_api: "\<not> under_api (request_to m ''/nowhere'')"
  by (simp add: under_api_def request_to_def use_matches_def strip_slash_def to_lower_chars)

text \<open>
  The claim as written promises the not-found response to every request whose path
  matches no route. A preflight request to such a path is answered earlier in the chain:
  \<^verbatim>\<open>cors\<close> ends it with status 200 and no body, and the 404 handler never runs.
\<close>

theorem preflight_not_found_counterexample:
  "matches_no_route (request_to ''OPTIONS'' ''/nowhere'') \<and>
   handle_request production_env (answering 200) 0 (request_to ''OPTIONS'' ''/nowhere'') no_hits =
     ([Helmet, Morgan, Cors], \<lparr>status = 200, body = Empty\<rparr>, no_hits)"
proof -
  have "behind_security production_env (answering 200) 0 (request_to ''OPTIONS'' ''/nowhere'')
      no_hits = ([Morgan, Cors], \<lparr>status = 200, body = Empty\<rparr>)"
    by (simp add: after_security_layers request_to_def cors_def corsOptions_origin_def
        truthy_def corsOptions_optionsSuccessStatus_def)
  with nowhere_not_api [of "''OPTIONS''"] nowhere_no_route [of "''OPTIONS''"]
  show ?thesis by (simp add: handle_request_cases)
qed

text \<open>
  C7, as the code has it. For every request that the admission stages pass on (no
  limiter rejects it, \<^verbatim>\<open>cors\<close> neither refuses it nor answers it as a preflight, the body
  parsers accept it) and whose path matches none of the mounted routes, the last
  middleware to run is the 404 handler, and the response has status 404 and the JSON
  body with \<^verbatim>\<open>success: false\<close>, the error string \<^verbatim>\<open>Route not found\<close> and \<^verbatim>\<open>path\<close> set to the
  original URL of the request.
\<close>

theorem not_found_fallback:
  assumes "admitted e c now req st" and "matches_no_route req"
  shows "fst (snd (handle_request e c now req st)) =
           \<lparr>status = 404,
            body = Json [(''success'', JBool False), (''error'', JString ''Route not found''),
                         (''path'', JString (originalUrl req))]\<rparr> \<and>
         last (fst (handle_request e c now req st)) = NotFound"
proof -
  from assms have l: "passes_limiters now req st" and co: "passes_cors e req"
    and b: "passes_body_parsers c req"
    by (simp_all add: admitted_def)
  from admitted_response [OF l not_found_behind_security [OF co b assms(2)]]
  show ?thesis by (auto simp: not_found_body_def)
qed

theorem not_found_fallback_witness:
  "admitted production_env (answering 200) 0 (request_to ''GET'' ''/nowhere'') no_hits \<and>
   matches_no_route (request_to ''GET'' ''/nowhere'') \<and>
   fst (snd (handle_request production_env (answering 200) 0 (request_to ''GET'' ''/nowhere'')
      no_hits)) =
     \<lparr>status = 404,
      body = Json [(''success'', JBool False), (''error'', JString ''Route not found''),
                   (''path'', JString ''/nowhere'')]\<rparr>"
proof -
  have a: "admitted production_env (answering 200) 0 (request_to ''GET'' ''/nowhere'') no_hits"
    by (simp add: admitted_def no_hits_passes answering_passes no_origin_passes_cors
        request_to_def)
  from not_found_fallback [OF a nowhere_no_route] a nowhere_no_route [of "''GET''"]
  show ?thesis by (simp add: request_to_def)
qed

lemma own_bodies:
  assumes "handle e c now req err mw s = (Respond rr, s')"
    and "\<forall>n. mw \<noteq> Router n" "\<forall>n. mw \<noteq> Static n" "mw \<noteq> ErrorHandler"
  shows "rr = \<lparr>status = 200, body = Json (root_body now)\<rparr> \<or>
         rr = \<lparr>status = 200, body = Json (health_body e now)\<rparr> \<or>
         rr = \<lparr>status = 404, body = Json (not_found_body req)\<rparr> \<or>
         rr = \<lparr>status = 429, body = Text (message limiter)\<rparr> \<or>
         rr = \<lparr>status = 429, body = Text (message authLimiter)\<rparr> \<or>
         rr = \<lparr>status = 200, body = Empty\<rparr>"
proof (cases mw)
  case (RateLimit l)
  with assms(1) show ?thesis
    by (cases l) (auto simp: rateLimit_eq split: if_splits)
next
  case Cors
  with assms(1) show ?thesis
    by (auto simp: corsOptions_optionsSuccessStatus_def split: sum.splits if_splits)
qed (use assms in \<open>auto split: option.splits\<close>)

lemma root_response:
  assumes "admitted e c now req st" "path req = ''/''"
    "method req = ''GET'' \<or> method req = ''HEAD''"
  shows "fst (snd (handle_request e c now req st)) =
     \<lparr>status = 200, body = Json (root_body now)\<rparr>"
proof -
  from assms(1) have l: "passes_limiters now req st" and co: "passes_cors e req"
    and b: "passes_body_parsers c req"
    by (simp_all add: admitted_def)
  from admitted_response [OF l root_behind_security [OF co b assms(2) assms(3)]]
  show ?thesis by simp
qed

lemma health_response:
  assumes "admitted e c now req st" "path req = ''/api/health''"
    "method req = ''GET'' \<or> method req = ''HEAD''"
  shows "fst (snd (handle_request e c now req st)) =
     \<lparr>status = 200, body = Json (health_body e now)\<rparr>"
proof -
  from assms(1) have l: "passes_limiters now req st" and co: "passes_cors e req"
    and b: "passes_body_parsers c req"
    by (simp_all add: admitted_def)
  from admitted_response [OF l health_behind_security [OF co b assms(2) assms(3)]]
  show ?thesis by simp
qed

lemma sample_admitted:
  "admitted production_env (answering 200) 0 (request_to ''GET'' p) no_hits"
  by (simp add: admitted_def no_hits_passes answering_passes no_origin_passes_cors
      request_to_def)

text \<open>
  The claim as written gives every JSON body a \<^verbatim>\<open>success\<close> field and gives the bodies
  of the root and health endpoints a \<^verbatim>\<open>status\<close> string. The body of the root endpoint
  has no \<^verbatim>\<open>status\<close> field, and the body of the health endpoint has no \<^verbatim>\<open>success\<close> field.
\<close>

theorem envelope_counterexample:
  "field (body (fst (snd (handle_request production_env (answering 200) 0
      (request_to ''GET'' ''/'') no_hits)))) ''status'' = None \<and>
   field (body (fst (snd (handle_request production_env (answering 200) 0
      (request_to ''GET'' ''/api/health'') no_hits)))) ''success'' = None"
proof -
  have "fst (snd (handle_request production_env (answering 200) 0
      (request_to ''GET'' ''/'') no_hits)) = \<lparr>status = 200, body = Json (root_body 0)\<rparr>"
    by (rule root_response [OF sample_admitted]) (simp_all add: request_to_def)
  moreover have "fst (snd (handle_request production_env (answering 200) 0
      (request_to ''GET'' ''/api/health'') no_hits)) =
      \<lparr>status = 200, body = Json (health_body production_env 0)\<rparr>"
    by (rule health_response [OF sample_admitted]) (simp_all add: request_to_def)
  ultimately show ?thesis
    by (simp add: field_def root_body_def health_body_def)
qed

text \<open>
  C8, as the code has it. The responses this layer writes itself are: the body of the
  root endpoint, with \<^verbatim>\<open>success: true\<close>, a message and the timestamp of
  \<^verbatim>\<open>new Date().toISOString()\<close>, and without a \<^verbatim>\<open>status\<close> field; the body of the health
  endpoint, with \<^verbatim>\<open>status: "OK"\<close>, a message, such a timestamp and the environment, and
  without a \<^verbatim>\<open>success\<close> field; the body of the 404 handler, with \<^verbatim>\<open>success: false\<close>, an
  error string and the path; the plain-text rejections of the two limiters; and the empty
  answer to a preflight. A \<^verbatim>\<open>GET\<close> or \<^verbatim>\<open>HEAD\<close> request that the admission stages pass on
  gets status 200 and the root body at \<^verbatim>\<open>/\<close>, and status 200 and the health body at
  \<^verbatim>\<open>/api/health\<close>.
\<close>

theorem response_envelopes:
  assumes "admitted e c now req st" and "method req = ''GET'' \<or> method req = ''HEAD''"
  shows "(path req = ''/'' \<longrightarrow>
            fst (snd (handle_request e c now req st)) =
              \<lparr>status = 200,
               body = Json [(''success'', JBool True),
                 (''message'', JString (''Backend Running Successfully '' @ rocket)),
                 (''timestamp'', JIsoDate now)]\<rparr>) \<and>
         (path req = ''/api/health'' \<longrightarrow>
            fst (snd (handle_request e c now req st)) =
              \<lparr>status = 200,
               body = Json [(''status'', JString ''OK''),
                 (''message'', JString ''Server is running''),
                 (''timestamp'', JIsoDate now),
                 (''environment'', JString (or_default (NODE_ENV e) ''development''))]\<rparr>) \<and>
         field (Json (root_body now)) ''status'' = None \<and>
         field (Json (health_body e now)) ''success'' = None \<and>
         not_found_body req =
           [(''success'', JBool False), (''error'', JString ''Route not found''),
            (''path'', JString (originalUrl req))] \<and>
         (\<forall>err mw s rr s'.
            handle e c now req err mw s = (Respond rr, s') \<and>
            (\<forall>n. mw \<noteq> Router n) \<and> (\<forall>n. mw \<noteq> Static n) \<and> mw \<noteq> ErrorHandler \<longrightarrow>
            rr = \<lparr>status = 200, body = Json (root_body now)\<rparr> \<or>
            rr = \<lparr>status = 200, body = Json (health_body e now)\<rparr> \<or>
            rr = \<lparr>status = 404, body = Json (not_found_body req)\<rparr> \<or>
            rr = \<lparr>status = 429, body = Text (message limiter)\<rparr> \<or>
            rr = \<lparr>status = 429, body = Text (message authLimiter)\<rparr> \<or>
            rr = \<lparr>status = 200, body = Empty\<rparr>)"
proof -
  have r: "path req = ''/'' \<longrightarrow>
      fst (snd (handle_request e c now req st)) =
        \<lparr>status = 200,
         body = Json [(''success'', JBool True),
           (''message'', JString (''Backend Running Successfully '' @ rocket)),
           (''timestamp'', JIsoDate now)]\<rparr>"
    using root_response [OF assms(1) _ assms(2)] by (simp add: root_body_def rocket_def)
  have h: "path req = ''/api/health'' \<longrightarrow>
      fst (snd (handle_request e c now req st)) =
        \<lparr>status = 200,
         body = Json [(''status'', JString ''OK''),
           (''message'', JString ''Server is running''),
           (''timestamp'', JIsoDate now),
           (''environment'', JString (or_default (NODE_ENV e) ''development''))]\<rparr>"
    using health_response [OF assms(1) _ assms(2)] by (simp add: health_body_def)
  have f: "field (Json (root_body now)) ''status'' = None"
    "field (Json (health_body e now)) ''success'' = None"
    by (simp_all add: field_def root_body_def health_body_def)
  have n: "not_found_body req =
      [(''success'', JBool False), (''error'', JString ''Route not found''),
       (''path'', JString (originalUrl req))]"
    by (simp add: not_found_body_def)
  have o: "rr = \<lparr>status = 200, body = Json (root_body now)\<rparr> \<or>
      rr = \<lparr>status = 200, body = Json (health_body e now)\<rparr> \<or>
      rr = \<lparr>status = 404, body = Json (not_found_body req)\<rparr> \<or>
      rr = \<lparr>status = 429, body = Text (message limiter)\<rparr> \<or>
      rr = \<lparr>status = 429, body = Text (message authLimiter)\<rparr> \<or>
      rr = \<lparr>status = 200, body = Empty\<rparr>"
    if "handle e c now req err mw s = (Respond rr, s')"
      "\<forall>n. mw \<noteq> Router n" "\<forall>n. mw \<noteq> Static n" "mw \<noteq> ErrorHandler"
    for err mw s rr s'
    using own_bodies [OF that] .
  from r h f n o show ?thesis by blast
qed

theorem response_envelopes_witness:
  "admitted production_env (answering 200) 0 (request_to ''GET'' ''/api/health'') no_hits \<and>
   status (fst (snd (handle_request production_env (answering 200) 0
      (request_to ''GET'' ''/api/health'') no_hits))) = 200 \<and>
   field (body (fst (snd (handle_request production_env (answering 200) 0
      (request_to ''GET'' ''/api/health'') no_hits)))) ''status'' = Some (JString ''OK'')"
proof -
  have m: "method (request_to ''GET'' ''/api/health'') = ''GET'' \<or>
      method (request_to ''GET'' ''/api/health'') = ''HEAD''"
    by (simp add: request_to_def)
  from response_envelopes [OF sample_admitted m]
  have "fst (snd (handle_request production_env (answering 200) 0
      (request_to ''GET'' ''/api/health'') no_hits)) =
        \<lparr>status = 200,
         body = Json [(''status'', JString ''OK''),
           (''message'', JString ''Server is running''),
           (''timestamp'', JIsoDate 0),
           (''environment'', JString (or_default (NODE_ENV production_env) ''development''))]\<rparr>"
    by (simp add: request_to_def)
  with sample_admitted show ?thesis by (simp add: field_def)
qed

section \<open>The stages of a request\<close>

lemma walk_answered:
  "walk e c now req ls err st = (ms, Inl r, st') \<Longrightarrow> ms \<noteq> []"
proof (induction ls arbitrary: err st ms)
  case Nil
  then show ?case by simp
next
  case (Cons l ls)
  obtain m mw where l: "l = (m, mw)" by (cases l)
  show ?case
  proof (cases "layer_matches m req \<and> handles_errors mw = (err \<noteq> None)")
    case False
    with Cons.prems l have "walk e c now req ls err st = (ms, Inl r, st')" by auto
    from Cons.IH [OF this] show ?thesis .
  next
    case True
    with Cons.prems l show ?thesis
      by (auto split: prod.splits handler_result.splits)
  qed
qed

lemma dispatch_layers_run:
  assumes "walk e c now req dispatch_layers None st = (d, out, st')"
  shows "d \<noteq> [] \<and> list_all (\<lambda>m. stage_of m = Dispatch) d"
proof -
  from walk_ran [OF assms] have "set d \<subseteq> snd ` set dispatch_layers" .
  moreover have "\<forall>m \<in> snd ` set dispatch_layers. stage_of m = Dispatch"
    by (simp add: dispatch_layers_def static_file_serving_def root_route_def api_routes_def
        not_found_handler_def)
  ultimately have all: "list_all (\<lambda>m. stage_of m = Dispatch) d"
    by (auto simp: list_all_iff)
  obtain ms1 out1 st1 where w1: "walk e c now req (static_file_serving @ root_route @ api_routes)
      None st = (ms1, out1, st1)"
    by (cases "walk e c now req (static_file_serving @ root_route @ api_routes) None st")
  from assms have "walk e c now req ((static_file_serving @ root_route @ api_routes) @
      not_found_handler) None st = (d, out, st')"
    by (simp add: dispatch_layers_def)
  then have w: "(case walk e c now req (static_file_serving @ root_route @ api_routes) None st of
        (ms1, Inl r, st1) \<Rightarrow> (ms1, Inl r, st1)
      | (ms1, Inr err1, st1) \<Rightarrow>
          (case walk e c now req not_found_handler err1 st1 of
             (ms2, out, st2) \<Rightarrow> (ms1 @ ms2, out, st2))) = (d, out, st')"
    by (simp only: walk_append)
  have "d \<noteq> []"
  proof (cases out1)
    case (Inl r)
    with w1 w walk_answered [of e c now req _ None st ms1 r st1] show ?thesis
      by simp
  next
    case (Inr err1)
    with w1 w show ?thesis
      by (cases err1)
        (auto simp: not_found_handler_def handles_errors_def use_slash split: prod.splits)
  qed
  with all show ?thesis by blast
qed

lemma after_security_split:
  "after_security = logging @ cors_configuration @ body_parsers @ dispatch_layers"
  by (simp add: after_security_def dispatch_layers_def)

lemma walk_dispatch_error:
  "walk e c now req dispatch_layers (Some x) st =
     ([ErrorHandler], Inl (errorHandler c x req), st)"
  by (simp add: dispatch_layers_def static_file_serving_def root_route_def api_routes_def
      not_found_handler_def handles_errors_def use_slash)

lemma behind_security_cases:
  "fst (behind_security e c now req st) =
     (case cors e (origin req) of
        Inl x \<Rightarrow> [Morgan, Cors, ErrorHandler]
      | Inr d \<Rightarrow>
          if allow d \<and> method req = ''OPTIONS'' then [Morgan, Cors]
          else
            (case json_parser c req of
               Some x \<Rightarrow> [Morgan, Cors, JsonParser, ErrorHandler]
             | None \<Rightarrow>
                 (case urlencoded_parser c req of
                    Some x \<Rightarrow> [Morgan, Cors, JsonParser, UrlencodedParser, ErrorHandler]
                  | None \<Rightarrow>
                      [Morgan, Cors, JsonParser, UrlencodedParser] @
                      fst (walk e c now req dispatch_layers None st))))"
  by (simp add: behind_security_def after_security_split logging_def cors_configuration_def
      body_parsers_def handles_errors_def use_slash walk_dispatch_error
      split: sum.splits option.splits prod.splits)

lemma limiters_pass_run:
  assumes "passes_limiters now req st"
  shows "\<exists>s. fst (handle_request e c now req st) =
     Helmet # limiters_on req @ fst (behind_security e c now req s)"
proof (cases "under_api req")
  case False
  with auth_path_under_api [of req] have na: "\<not> auth_path req" by blast
  with False have "fst (handle_request e c now req st) =
      Helmet # limiters_on req @ fst (behind_security e c now req st)"
    by (simp add: handle_request_cases limiters_on_def split: prod.splits)
  then show ?thesis by blast
next
  case True
  note api = True
  obtain g where g: "rateLimit limiter now (ip req) (general st) = (g, None)"
    using assms api by (simp add: rateLimit_eq passes_limiters_def)
  show ?thesis
  proof (cases "auth_path req")
    case False
    with api g have "fst (handle_request e c now req st) =
        Helmet # limiters_on req @ fst (behind_security e c now req (st\<lparr>general := g\<rparr>))"
      by (simp add: handle_request_cases limiters_on_def split: prod.splits)
    then show ?thesis by blast
  next
    case True
    obtain a where a: "rateLimit authLimiter now (ip req) (auth st) = (a, None)"
      using assms True by (simp add: rateLimit_eq passes_limiters_def)
    with api g True have "fst (handle_request e c now req st) =
        Helmet # limiters_on req @
        fst (behind_security e c now req (st\<lparr>general := g, auth := a\<rparr>))"
      by (simp add: handle_request_cases limiters_on_def split: prod.splits)
    then show ?thesis by blast
  qed
qed

lemma limiter_reject_run:
  shows "under_api req \<Longrightarrow> max' limiter \<le> window_count limiter now (general st) (ip req) \<Longrightarrow>
           fst (handle_request e c now req st) = [Helmet, RateLimit General]"
    and "auth_path req \<Longrightarrow> window_count limiter now (general st) (ip req) < max' limiter \<Longrightarrow>
         max' authLimiter \<le> window_count authLimiter now (auth st) (ip req) \<Longrightarrow>
           fst (handle_request e c now req st) = [Helmet, RateLimit General, RateLimit Auth]"
proof -
  show "fst (handle_request e c now req st) = [Helmet, RateLimit General]"
    if "under_api req" "max' limiter \<le> window_count limiter now (general st) (ip req)"
    using that by (simp add: handle_request_cases rateLimit_eq)
  show "fst (handle_request e c now req st) = [Helmet, RateLimit General, RateLimit Auth]"
    if "auth_path req" "window_count limiter now (general st) (ip req) < max' limiter"
      "max' authLimiter \<le> window_count authLimiter now (auth st) (ip req)"
    using that auth_path_under_api [OF that(1)]
    by (simp add: handle_request_cases rateLimit_eq)
qed

lemma helmet_first: "\<exists>rest. fst (handle_request e c now req st) = Helmet # rest"
  by (auto simp: handle_request_cases split: prod.splits option.splits)

lemma dispatch_stages:
  "d \<noteq> [] \<Longrightarrow> list_all (\<lambda>m. stage_of m = Dispatch) d \<Longrightarrow>
   remdups_adj (BodyParsing # map stage_of d) = [BodyParsing, Dispatch]"
proof -
  assume d: "d \<noteq> []" and a: "list_all (\<lambda>m. stage_of m = Dispatch) d"
  from a have "map stage_of d = replicate (length d) Dispatch"
    by (induction d) auto
  moreover from d obtain n where "length d = Suc n" by (cases d) auto
  ultimately have "map stage_of d = Dispatch # replicate n Dispatch" by simp
  moreover have "remdups_adj (Dispatch # replicate n Dispatch) = [Dispatch]"
    using remdups_adj_replicate [of "Suc n" Dispatch] by simp
  ultimately show ?thesis by simp
qed

lemma admitted_run:
  assumes "admitted e c now req st"
  shows "\<exists>d. fst (handle_request e c now req st) =
            Helmet # limiters_on req @ [Morgan, Cors, JsonParser, UrlencodedParser] @ d \<and>
          d \<noteq> [] \<and> list_all (\<lambda>m. stage_of m = Dispatch) d"
proof -
  from assms have l: "passes_limiters now req st" and co: "passes_cors e req"
    and b: "passes_body_parsers c req"
    by (simp_all add: admitted_def)
  from limiters_pass_run [OF l] obtain s where
    run: "fst (handle_request e c now req st) =
      Helmet # limiters_on req @ fst (behind_security e c now req s)"
    by blast
  obtain d out s' where w: "walk e c now req dispatch_layers None s = (d, out, s')"
    by (cases "walk e c now req dispatch_layers None s")
  from co b w have "fst (behind_security e c now req s) =
      [Morgan, Cors, JsonParser, UrlencodedParser] @ d"
    by (auto simp: behind_security_cases passes_cors_def passes_body_parsers_def
        split: sum.splits)
  with run dispatch_layers_run [OF w] show ?thesis by auto
qed

lemma admitted_stages:
  assumes "admitted e c now req st"
  shows "remdups_adj (map stage_of (fst (handle_request e c now req st))) =
     SecurityHeaders # (if under_api req then [RateLimiting] else []) @
     [Logging, CorsEvaluation, BodyParsing, Dispatch]"
proof -
  from admitted_run [OF assms] obtain d where
    run: "fst (handle_request e c now req st) =
      Helmet # limiters_on req @ [Morgan, Cors, JsonParser, UrlencodedParser] @ d"
    and d: "d \<noteq> []" "list_all (\<lambda>m. stage_of m = Dispatch) d"
    by blast
  from dispatch_stages [OF d]
  have ds: "remdups_adj (BodyParsing # map stage_of d) = [BodyParsing, Dispatch]" .
  have api: "auth_path req \<Longrightarrow> under_api req" by (rule auth_path_under_api)
  show ?thesis
    using api ds by (auto simp: run limiters_on_def)
qed

text \<open>
  C6. For every request the middleware runs in the order of the stack, and the stack is
  registered stage by stage: security headers, rate limiting, logging, CORS evaluation,
  body parsing, then the static file servers, routes and handlers of dispatch. Which
  middleware runs is fixed as well. \<^verbatim>\<open>helmet\<close> runs first for every request. Then the
  limiters mounted on the path run; a limiter that rejects the request ends the run.
  Then \<^verbatim>\<open>morgan\<close> and \<^verbatim>\<open>cors\<close> run; a refusal by \<^verbatim>\<open>cors\<close> goes straight to the error
  handler, and a preflight ends with \<^verbatim>\<open>cors\<close>. Then the two body parsers run, a body that
  one of them refuses going straight to the error handler, and after them at least one
  layer of dispatch. So a request that the admission stages pass on meets every stage,
  in the order security headers, rate limiting (for a path under \<^verbatim>\<open>/api/\<close>), logging,
  CORS evaluation, body parsing, dispatch, and no request meets two stages in another
  order. What a limiter or the logger does once the response is finished comes after
  all of them.
\<close>

theorem middleware_stage_order:
  "subseq (fst (handle_request e c now req st)) (map snd app) \<and>
   in_stage_order (fst (handle_request e c now req st)) \<and>
   map (stage_of \<circ> snd) app =
     [SecurityHeaders, RateLimiting, RateLimiting, RateLimiting, Logging, CorsEvaluation,
      BodyParsing, BodyParsing] @ replicate 15 Dispatch \<and>
   (\<exists>rest. fst (handle_request e c now req st) = Helmet # rest) \<and>
   (under_api req \<and> max' limiter \<le> window_count limiter now (general st) (ip req) \<longrightarrow>
      fst (handle_request e c now req st) = [Helmet, RateLimit General]) \<and>
   (auth_path req \<and> window_count limiter now (general st) (ip req) < max' limiter \<and>
    max' authLimiter \<le> window_count authLimiter now (auth st) (ip req) \<longrightarrow>
      fst (handle_request e c now req st) = [Helmet, RateLimit General, RateLimit Auth]) \<and>
   (passes_limiters now req st \<longrightarrow>
      (case cors e (origin req) of
         Inl x \<Rightarrow>
           fst (handle_request e c now req st) =
             Helmet # limiters_on req @ [Morgan, Cors, ErrorHandler]
       | Inr d \<Rightarrow>
           if allow d \<and> method req = ''OPTIONS'' then
             fst (handle_request e c now req st) = Helmet # limiters_on req @ [Morgan, Cors]
           else
             (case json_parser c req of
                Some x \<Rightarrow>
                  fst (handle_request e c now req st) =
                    Helmet # limiters_on req @ [Morgan, Cors, JsonParser, ErrorHandler]
              | None \<Rightarrow>
                  (case urlencoded_parser c req of
                     Some x \<Rightarrow>
                       fst (handle_request e c now req st) =
                         Helmet # limiters_on req @
                         [Morgan, Cors, JsonParser, UrlencodedParser, ErrorHandler]
                   | None \<Rightarrow>
                       (\<exists>d. fst (handle_request e c now req st) =
                              Helmet # limiters_on req @
                              [Morgan, Cors, JsonParser, UrlencodedParser] @ d \<and>
                            d \<noteq> [] \<and> list_all (\<lambda>m. stage_of m = Dispatch) d))))) \<and>
   (admitted e c now req st \<longrightarrow>
      remdups_adj (map stage_of (fst (handle_request e c now req st))) =
        SecurityHeaders # (if under_api req then [RateLimiting] else []) @
        [Logging, CorsEvaluation, BodyParsing, Dispatch])"
proof -
  obtain ms out st' where w: "walk e c now req app None st = (ms, out, st')"
    by (cases "walk e c now req app None st")
  from walk_subseq [OF w] have "subseq ms (map snd app)" .
  with w have sub: "subseq (fst (handle_request e c now req st)) (map snd app)"
    by (simp add: handle_request_ms)
  from app_stage_order have "sorted (map (stage_rank \<circ> stage_of) (map snd app))"
    by (simp add: in_stage_order_def)
  from subseq_sorted_map [OF sub this]
  have ord: "in_stage_order (fst (handle_request e c now req st))"
    by (simp add: in_stage_order_def)
  have stack: "map (stage_of \<circ> snd) app =
     [SecurityHeaders, RateLimiting, RateLimiting, RateLimiting, Logging, CorsEvaluation,
      BodyParsing, BodyParsing] @ replicate 15 Dispatch"
    by (simp add: app_layers numeral_eq_Suc)
  have pass: "(case cors e (origin req) of
         Inl x \<Rightarrow>
           fst (handle_request e c now req st) =
             Helmet # limiters_on req @ [Morgan, Cors, ErrorHandler]
       | Inr d \<Rightarrow>
           if allow d \<and> method req = ''OPTIONS'' then
             fst (handle_request e c now req st) = Helmet # limiters_on req @ [Morgan, Cors]
           else
             (case json_parser c req of
                Some x \<Rightarrow>
                  fst (handle_request e c now req st) =
                    Helmet # limiters_on req @ [Morgan, Cors, JsonParser, ErrorHandler]
              | None \<Rightarrow>
                  (case urlencoded_parser c req of
                     Some x \<Rightarrow>
                       fst (handle_request e c now req st) =
                         Helmet # limiters_on req @
                         [Morgan, Cors, JsonParser, UrlencodedParser, ErrorHandler]
                   | None \<Rightarrow>
                       (\<exists>d. fst (handle_request e c now req st) =
                              Helmet # limiters_on req @
                              [Morgan, Cors, JsonParser, UrlencodedParser] @ d \<and>
                            d \<noteq> [] \<and> list_all (\<lambda>m. stage_of m = Dispatch) d))))"
    if l: "passes_limiters now req st"
  proof -
    from limiters_pass_run [OF l] obtain s where
      run: "fst (handle_request e c now req st) =
        Helmet # limiters_on req @ fst (behind_security e c now req s)"
      by blast
    show ?thesis
    proof (cases "passes_cors e req \<and> passes_body_parsers c req")
      case True
      with l have "admitted e c now req st" by (simp add: admitted_def)
      from admitted_run [OF this] True show ?thesis
        by (auto simp: passes_cors_def passes_body_parsers_def split: sum.splits)
    next
      case False
      then show ?thesis
        by (auto simp: run behind_security_cases passes_cors_def passes_body_parsers_def
            split: sum.splits option.splits)
    qed
  qed
  from sub ord stack helmet_first [of e c now req st]
    limiter_reject_run(1) [of req now st e c] limiter_reject_run(2) [of req now st e c]
    pass admitted_stages [of e c now req st]
  show ?thesis by blast
qed

lemma health_limiters: "limiters_on (request_to m ''/api/health'') = [RateLimit General]"
proof -
  have "\<not> auth_path (request_to m ''/api/health'')"
    by (simp add: auth_path_def request_to_def use_matches_def strip_slash_def to_lower_chars)
  with api_health [of m] show ?thesis by (simp add: limiters_on_def)
qed

theorem middleware_stage_order_witness:
  "admitted production_env (answering 200) 0 (request_to ''GET'' ''/api/health'') no_hits \<and>
   fst (handle_request production_env (answering 200) 0 (request_to ''GET'' ''/api/health'')
     no_hits) =
     [Helmet, RateLimit General, Morgan, Cors, JsonParser, UrlencodedParser, HealthRoute] \<and>
   remdups_adj (map stage_of (fst (handle_request production_env (answering 200) 0
     (request_to ''GET'' ''/api/health'') no_hits))) =
     [SecurityHeaders, RateLimiting, Logging, CorsEvaluation, BodyParsing, Dispatch]"
proof -
  let ?req = "request_to ''GET'' ''/api/health''"
  let ?H = "handle_request production_env (answering 200) 0 ?req no_hits"
  have a: "admitted production_env (answering 200) 0 ?req no_hits"
    by (rule sample_admitted)
  then have l: "passes_limiters 0 ?req no_hits" and co: "passes_cors production_env ?req"
    and b: "passes_body_parsers (answering 200) ?req"
    by (simp_all add: admitted_def)
  have m: "method ?req = ''GET'' \<or> method ?req = ''HEAD''" and p: "path ?req = ''/api/health''"
    by (simp_all add: request_to_def)
  from limiters_pass_run [OF l, of production_env "answering 200"]
    health_behind_security [OF co b p m, of 0]
  have run: "fst ?H =
      [Helmet, RateLimit General, Morgan, Cors, JsonParser, UrlencodedParser, HealthRoute]"
    by (auto simp: health_limiters)
  from middleware_stage_order [of production_env "answering 200" 0 ?req no_hits] a
  have "remdups_adj (map stage_of (fst ?H)) =
      SecurityHeaders # (if under_api ?req then [RateLimiting] else []) @
      [Logging, CorsEvaluation, BodyParsing, Dispatch]"
    by blast
  with api_health [of "''GET''"] a run show ?thesis by simp
qed

section \<open>Properties of start-up and shutdown\<close>

lemma preceded_append:
  "preceded P Q (xs @ ys) =
     (preceded P Q xs \<and> ((\<exists>x \<in> set xs. P x) \<or> preceded P Q ys))"
  by (induction xs) auto

lemma step_exited: "exited p \<noteq> None \<Longrightarrow> step e ev p = p"
  by (cases ev) auto

lemma run_exited: "exited p \<noteq> None \<Longrightarrow> run e evs p = p"
  by (induction evs arbitrary: p) (simp_all add: step_exited)

lemma run_append: "run e (evs @ evs') p = run e evs' (run e evs p)"
  by (induction evs arbitrary: p) simp_all

lemma step_ordered:
  assumes "shutdown_ordered (log p)" "pending_ok p"
  shows "shutdown_ordered (log (step e ev p)) \<and> pending_ok (step e ev p)"
  using assms
  by (cases ev)
    (auto simp: shutdown_ordered_def pending_ok_def preceded_append record_entries_def
      process_exit_def Let_def split: option.splits)

lemma run_ordered:
  "shutdown_ordered (log p) \<Longrightarrow> pending_ok p \<Longrightarrow>
   shutdown_ordered (log (run e evs p)) \<and> pending_ok (run e evs p)"
proof (induction evs arbitrary: p)
  case Nil
  then show ?case by simp
next
  case (Cons ev evs)
  from step_ordered [OF Cons.prems] Cons.IH show ?case by simp
qed

lemma connectDB_ordered: "shutdown_ordered (log (connectDB e)) \<and> pending_ok (connectDB e)"
  by (simp add: shutdown_ordered_def pending_ok_def connectDB_def)

lemma shutdown_path:
  assumes "phase_of p = RUNNING"
  shows "phase_of (run e [Sigterm] p) = DRAINING"
    and "log (run e [Sigterm] p) = log p @ [Event Sigterm, Call ServerClose]"
    and "phase_of (run e [Sigterm, ServerClosed] p) = DB_CLOSING"
    and "log (run e [Sigterm, ServerClosed] p) =
          log p @ [Event Sigterm, Call ServerClose, Event ServerClosed, Call ConnectionClose]"
    and "phase_of (run e [Sigterm, ServerClosed, ConnectionClosed] p) = TERMINATED 0"
    and "log (run e [Sigterm, ServerClosed, ConnectionClosed] p) =
          log p @ [Event Sigterm, Call ServerClose, Event ServerClosed, Call ConnectionClose,
                   Event ConnectionClosed, Call (ProcessExit 0)]"
  using assms
  by (auto simp: phase_of_def record_entries_def process_exit_def split: option.splits if_splits)

text \<open>
  C4. In every run of the process, whatever events arrive and in whatever order, the
  log keeps the order of a shutdown: \<^verbatim>\<open>server.close\<close> is called only after a \<^verbatim>\<open>SIGTERM\<close>,
  the database connection is closed only after the callback of \<^verbatim>\<open>server.close\<close> has
  fired, and \<^verbatim>\<open>process.exit(0)\<close> is called only after the callback of the database close
  has fired. And from a running process the signal followed by the two callbacks takes
  the coordinator through DRAINING and DB_CLOSING to termination with exit code 0,
  making exactly these calls in this order.
\<close>

theorem graceful_shutdown_order:
  "shutdown_ordered (log (run e evs (connectDB e))) \<and>
   (phase_of p = RUNNING \<longrightarrow>
      phase_of (run e [Sigterm] p) = DRAINING \<and>
      log (run e [Sigterm] p) = log p @ [Event Sigterm, Call ServerClose] \<and>
      phase_of (run e [Sigterm, ServerClosed] p) = DB_CLOSING \<and>
      log (run e [Sigterm, ServerClosed] p) =
        log p @ [Event Sigterm, Call ServerClose, Event ServerClosed, Call ConnectionClose] \<and>
      phase_of (run e [Sigterm, ServerClosed, ConnectionClosed] p) = TERMINATED 0 \<and>
      log (run e [Sigterm, ServerClosed, ConnectionClosed] p) =
        log p @ [Event Sigterm, Call ServerClose, Event ServerClosed, Call ConnectionClose,
                 Event ConnectionClosed, Call (ProcessExit 0)])"
proof -
  have "shutdown_ordered (log (run e evs (connectDB e)))"
    using run_ordered connectDB_ordered by blast
  moreover have "phase_of p = RUNNING \<longrightarrow>
      phase_of (run e [Sigterm] p) = DRAINING \<and>
      log (run e [Sigterm] p) = log p @ [Event Sigterm, Call ServerClose] \<and>
      phase_of (run e [Sigterm, ServerClosed] p) = DB_CLOSING \<and>
      log (run e [Sigterm, ServerClosed] p) =
        log p @ [Event Sigterm, Call ServerClose, Event ServerClosed, Call ConnectionClose] \<and>
      phase_of (run e [Sigterm, ServerClosed, ConnectionClosed] p) = TERMINATED 0 \<and>
      log (run e [Sigterm, ServerClosed, ConnectionClosed] p) =
        log p @ [Event Sigterm, Call ServerClose, Event ServerClosed, Call ConnectionClose,
                 Event ConnectionClosed, Call (ProcessExit 0)]"
    using shutdown_path [of p e] by blast
  ultimately show ?thesis by blast
qed

theorem graceful_shutdown_order_witness:
  "phase_of (run production_env [Connected ''db'' None, Listening] (connectDB production_env))
     = RUNNING \<and>
   phase_of (run production_env [Sigterm, ServerClosed, ConnectionClosed]
     (run production_env [Connected ''db'' None, Listening] (connectDB production_env)))
     = TERMINATED 0 \<and>
   shutdown_ordered (log (run production_env
     [Connected ''db'' None, Listening, Sigterm, ServerClosed, ConnectionClosed]
     (connectDB production_env)))"
proof -
  let ?p = "run production_env [Connected ''db'' None, Listening] (connectDB production_env)"
  have running: "phase_of ?p = RUNNING"
    by (simp add: phase_of_def connectDB_def record_entries_def)
  from graceful_shutdown_order [of production_env
      "[Connected ''db'' None, Listening, Sigterm, ServerClosed, ConnectionClosed]" ?p] running
  show ?thesis by blast
qed

lemma step_listen_order:
  "preceded is_connected is_listen (log p) \<Longrightarrow>
   preceded is_connected is_listen (log (step e ev p))"
  by (cases ev)
    (auto simp: preceded_append record_entries_def process_exit_def Let_def split: option.splits)

lemma run_listen_order:
  "preceded is_connected is_listen (log p) \<Longrightarrow>
   preceded is_connected is_listen (log (run e evs p))"
  by (induction evs arbitrary: p) (simp_all add: step_listen_order)

lemma step_listen_once: "listen_once e p \<Longrightarrow> listen_once e (step e ev p)"
  by (cases ev)
    (auto simp: listen_once_def record_entries_def process_exit_def Let_def
      split: option.splits if_splits)

lemma run_listen_once: "listen_once e p \<Longrightarrow> listen_once e (run e evs p)"
  by (induction evs arbitrary: p) (simp_all add: step_listen_once)

lemma connect_failed_run:
  "run e (ConnectFailed msg # evs) (connectDB e) =
     \<lparr>exited = Some 1, connecting = False, server = False, close_callbacks = 0,
      db_close_callbacks = 0,
      log = [Call (MongooseConnect (mongodb_uri e)), Event (ConnectFailed msg),
             Call (ConsoleError (cross_mark @ '' MongoDB connection error: '' @ msg)),
             Call (ProcessExit 1)]\<rparr>"
  by (simp add: run_exited connectDB_def record_entries_def process_exit_def)

lemma port_in_use_run:
  assumes "server p" "exited p = None"
  shows "run e (ServerError ''EADDRINUSE'' # evs) p =
     p\<lparr>exited := Some 1,
       log := log p @ [Event (ServerError ''EADDRINUSE''),
         Call (ConsoleError (cross_mark @ '' Port '' @ port e @ '' is already in use!'')),
         Call (ProcessExit 1)]\<rparr>"
  using assms by (simp add: run_exited record_entries_def process_exit_def)

text \<open>
  C5. In every run, \<^verbatim>\<open>app.listen\<close> is called only after the database connection has
  succeeded, at most once, and only with the configured port. When the connection fails,
  the process logs the failure and exits with code 1; whatever happens afterwards, its
  log holds no call of \<^verbatim>\<open>app.listen\<close>. When the server reports \<^verbatim>\<open>EADDRINUSE\<close>, the process
  logs it and exits with code 1, and nothing that follows makes it listen again.
\<close>

theorem startup_sequencing:
  "preceded is_connected is_listen (log (run e evs (connectDB e))) \<and>
   (filter is_listen (log (run e evs (connectDB e))) = [] \<or>
    filter is_listen (log (run e evs (connectDB e))) = [Call (AppListen (port e))]) \<and>
   run e (ConnectFailed msg # evs) (connectDB e) =
     \<lparr>exited = Some 1, connecting = False, server = False, close_callbacks = 0,
      db_close_callbacks = 0,
      log = [Call (MongooseConnect (mongodb_uri e)), Event (ConnectFailed msg),
             Call (ConsoleError (cross_mark @ '' MongoDB connection error: '' @ msg)),
             Call (ProcessExit 1)]\<rparr> \<and>
   (server (run e evs (connectDB e)) \<and> exited (run e evs (connectDB e)) = None \<longrightarrow>
      run e (evs @ ServerError ''EADDRINUSE'' # evs') (connectDB e) =
        (run e evs (connectDB e))
          \<lparr>exited := Some 1,
           log := log (run e evs (connectDB e)) @
             [Event (ServerError ''EADDRINUSE''),
              Call (ConsoleError (cross_mark @ '' Port '' @ port e @ '' is already in use!'')),
              Call (ProcessExit 1)]\<rparr>)"
proof -
  have "preceded is_connected is_listen (log (connectDB e))"
    by (simp add: connectDB_def)
  then have order: "preceded is_connected is_listen (log (run e evs (connectDB e)))"
    by (rule run_listen_order)
  have "listen_once e (connectDB e)"
    by (simp add: listen_once_def connectDB_def)
  then have "listen_once e (run e evs (connectDB e))"
    by (rule run_listen_once)
  then have once: "filter is_listen (log (run e evs (connectDB e))) = [] \<or>
      filter is_listen (log (run e evs (connectDB e))) = [Call (AppListen (port e))]"
    by (auto simp: listen_once_def split: if_splits)
  have in_use: "server (run e evs (connectDB e)) \<and> exited (run e evs (connectDB e)) = None \<longrightarrow>
      run e (evs @ ServerError ''EADDRINUSE'' # evs') (connectDB e) =
        (run e evs (connectDB e))
          \<lparr>exited := Some 1,
           log := log (run e evs (connectDB e)) @
             [Event (ServerError ''EADDRINUSE''),
              Call (ConsoleError (cross_mark @ '' Port '' @ port e @ '' is already in use!'')),
              Call (ProcessExit 1)]\<rparr>"
    using port_in_use_run [of "run e evs (connectDB e)" e evs'] by (simp add: run_append)
  from order once connect_failed_run [of e msg evs] in_use show ?thesis by blast
qed

theorem startup_sequencing_witness:
  "server (run production_env [Connected ''db'' None] (connectDB production_env)) \<and>
   exited (run production_env [Connected ''db'' None] (connectDB production_env)) = None \<and>
   exited (run production_env [Connected ''db'' None, ServerError ''EADDRINUSE'', Listening]
     (connectDB production_env)) = Some 1 \<and>
   filter is_listen (log (run production_env
     [Connected ''db'' None, ServerError ''EADDRINUSE'', Listening] (connectDB production_env))) =
     [Call (AppListen ''5000'')] \<and>
   exited (run production_env [ConnectFailed ''down'', Connected ''db'' None]
     (connectDB production_env)) = Some 1 \<and>
   filter is_listen (log (run production_env [ConnectFailed ''down'', Connected ''db'' None]
     (connectDB production_env))) = []"
proof -
  let ?p = "run production_env [Connected ''db'' None] (connectDB production_env)"
  have up: "server ?p \<and> exited ?p = None"
    by (simp add: connectDB_def record_entries_def)
  have l: "filter is_listen (log ?p) = [Call (AppListen ''5000'')]"
    by (simp add: connectDB_def record_entries_def port_def or_default_def production_env_def)
  from startup_sequencing [of production_env "[Connected ''db'' None]" "''down''" "[Listening]"] up
  have "run production_env ([Connected ''db'' None] @ ServerError ''EADDRINUSE'' # [Listening])
          (connectDB production_env) =
        ?p\<lparr>exited := Some 1,
           log := log ?p @
             [Event (ServerError ''EADDRINUSE''),
              Call (ConsoleError (cross_mark @ '' Port '' @ port production_env @
                 '' is already in use!'')),
              Call (ProcessExit 1)]\<rparr>"
    by blast
  then have a: "exited (run production_env
        [Connected ''db'' None, ServerError ''EADDRINUSE'', Listening]
        (connectDB production_env)) = Some 1"
    and b: "filter is_listen (log (run production_env
        [Connected ''db'' None, ServerError ''EADDRINUSE'', Listening]
        (connectDB production_env))) = [Call (AppListen ''5000'')]"
    using l by simp_all
  from startup_sequencing [of production_env "[Connected ''db'' None]" "''down''"
      "[Connected ''db'' None]"]
  have "run production_env (ConnectFailed ''down'' # [Connected ''db'' None])
          (connectDB production_env) =
     \<lparr>exited = Some 1, connecting = False, server = False, close_callbacks = 0,
      db_close_callbacks = 0,
      log = [Call (MongooseConnect (mongodb_uri production_env)), Event (ConnectFailed ''down''),
             Call (ConsoleError (cross_mark @ '' MongoDB connection error: '' @ ''down'')),
             Call (ProcessExit 1)]\<rparr>"
    by blast
  then have c: "exited (run production_env [ConnectFailed ''down'', Connected ''db'' None]
        (connectDB production_env)) = Some 1"
    and d: "filter is_listen (log (run production_env
        [ConnectFailed ''down'', Connected ''db'' None] (connectDB production_env))) = []"
    by simp_all
  from up a b c d show ?thesis by blast
qed

end
